theory Spec2Isabelle
  imports Main "HOL-Library.Word" "HOL-Library.Sublist"
begin

section \<open>JavaScript strings and the built-ins the sources call\<close>

text \<open>
  A JavaScript string is a sequence of UTF-16 code units. The sources need code units
  beyond Latin-1 (the regular expression of \<open>cleanHost\<close>, the white space that
  \<open>trim\<close> removes), so a string is a list of 16-bit words; \<open>js\<close> embeds an ASCII
  literal.
\<close>

type_synonym jschar = "16 word"
type_synonym jsstring = "jschar list"

definition js :: "string \<Rightarrow> jsstring" where
  "js s = map of_char s"

text \<open>
  \<open>String.prototype.trim\<close> removes WhiteSpace and LineTerminator code points from both
  ends: TAB, LF, VT, FF, CR, SP, NBSP, U+1680, U+2000 to U+200A, LS, PS, U+202F, U+205F,
  U+3000 and the byte order mark U+FEFF.
\<close>

definition is_ws :: "jschar \<Rightarrow> bool" where
  "is_ws c \<longleftrightarrow>
     c \<in> {0x9, 0xA, 0xB, 0xC, 0xD, 0x20, 0xA0, 0x1680, 0x2028, 0x2029, 0x202F, 0x205F,
          0x3000, 0xFEFF}
     \<or> (0x2000 \<le> c \<and> c \<le> 0x200A)"

definition js_trim :: "jsstring \<Rightarrow> jsstring" where
  "js_trim s = rev (dropWhile is_ws (rev (dropWhile is_ws s)))"

text \<open>
  \<open>s.split(sep)\<close> with a string separator: the pieces between the leftmost,
  non-overlapping occurrences of \<open>sep\<close>; the empty string splits into one empty piece.
  The sources only split on non-empty separators.
\<close>

fun js_split :: "'a list \<Rightarrow> 'a list \<Rightarrow> 'a list list" where
  "js_split sep [] = [[]]"
| "js_split sep (c # cs) =
     (if sep \<noteq> [] \<and> prefix sep (c # cs)
      then [] # js_split sep (drop (length sep) (c # cs))
      else (let r = js_split sep cs in (c # hd r) # tl r))"

text \<open>\<open>xs.join(sep)\<close>; the empty array joins to the empty string.\<close>

fun js_join :: "'a list \<Rightarrow> 'a list list \<Rightarrow> 'a list" where
  "js_join sep [] = []"
| "js_join sep [x] = x"
| "js_join sep (x # y # ys) = x @ sep @ js_join sep (y # ys)"

text \<open>
  \<open>s.replace(/pat/g, rep)\<close> for a pattern that is a literal, non-empty sequence of
  characters: every leftmost, non-overlapping occurrence is replaced.
\<close>

fun js_replace_all :: "'a list \<Rightarrow> 'a list \<Rightarrow> 'a list \<Rightarrow> 'a list" where
  "js_replace_all pat rep [] = []"
| "js_replace_all pat rep (c # cs) =
     (if pat \<noteq> [] \<and> prefix pat (c # cs)
      then rep @ js_replace_all pat rep (drop (length pat) (c # cs))
      else c # js_replace_all pat rep cs)"

text \<open>\<open>xs.slice(a, b)\<close> for \<open>0 \<le> a \<le> b\<close>; both ends are clamped to the length.\<close>

definition js_slice :: "'a list \<Rightarrow> nat \<Rightarrow> nat \<Rightarrow> 'a list" where
  "js_slice xs a b = take (b - a) (drop a xs)"

text \<open>
  The regular expressions of the sources are sequences of single-character atoms:
  \<open>\d\<close> (an ASCII digit), a literal, and a literal under the \<open>i\<close> flag. Under \<open>i\<close>
  (without \<open>u\<close>) two code units match when their canonical forms are equal; the
  canonical form of an ASCII letter is its upper case, and no code unit from 128 on has an
  ASCII canonical form, so against the ASCII patterns used here only the two cases of a
  letter match.
\<close>

datatype atom = Digit | Lit jschar | LitCI jschar

definition canonicalize :: "jschar \<Rightarrow> jschar" where
  "canonicalize c = (if 0x61 \<le> c \<and> c \<le> 0x7A then c - 0x20 else c)"

fun atom_matches :: "atom \<Rightarrow> jschar \<Rightarrow> bool" where
  "atom_matches Digit c = (0x30 \<le> c \<and> c \<le> 0x39)"
| "atom_matches (Lit x) c = (c = x)"
| "atom_matches (LitCI x) c = (canonicalize c = canonicalize x)"

text \<open>The pattern matches at the start of the string.\<close>

fun matches_at :: "atom list \<Rightarrow> jsstring \<Rightarrow> bool" where
  "matches_at [] s = True"
| "matches_at (a # as) [] = False"
| "matches_at (a # as) (c # cs) = (atom_matches a c \<and> matches_at as cs)"

text \<open>
  An unanchored search: the suffix of the string that starts at the leftmost match,
  if there is one.
\<close>

fun regex_search :: "atom list \<Rightarrow> jsstring \<Rightarrow> jsstring option" where
  "regex_search pat [] = (if matches_at pat [] then Some [] else None)"
| "regex_search pat (c # cs) =
     (if matches_at pat (c # cs) then Some (c # cs) else regex_search pat cs)"

section \<open>types.ts\<close>

text \<open>
  The field \<open>id\<close> of a subtitle block is \<open>block_id\<close> here. The stats' two timestamps
  are \<open>stats_startTime\<close> and \<open>stats_endTime\<close> (a block has fields of the same names);
  they are milliseconds, \<open>None\<close> for \<open>null\<close>. The field \<open>elapsedSeconds\<close> is
  written by the interval timer only and is left out.
\<close>

record SubtitleBlock =
  block_id :: jsstring
  startTime :: jsstring
  endTime :: jsstring
  originalText :: jsstring
  translatedText :: jsstring

record TranslationStats =
  totalLines :: nat
  processedLines :: nat
  stats_startTime :: "nat option"
  stats_endTime :: "nat option"

datatype AppState = CONFIG | UPLOAD | PROCESSING | COMPLETED | ERROR

section \<open>services/srtParser.ts\<close>

text \<open>\<open>content.replace(/\r\n/g, '\n').replace(/\r/g, '\n')\<close>\<close>

definition normalize_line_endings :: "jsstring \<Rightarrow> jsstring" where
  "normalize_line_endings content =
     js_replace_all [0xD] [0xA] (js_replace_all [0xD, 0xA] [0xA] content)"

text \<open>\<open>normalized.split('\n\n')\<close>\<close>

definition srt_blocks :: "jsstring \<Rightarrow> jsstring list" where
  "srt_blocks content = js_split [0xA, 0xA] (normalize_line_endings content)"

text \<open>\<open>block.trim().split('\n')\<close>\<close>

definition block_lines :: "jsstring \<Rightarrow> jsstring list" where
  "block_lines block = js_split [0xA] (js_trim block)"

text \<open>\<open>\d{2}:\d{2}:\d{2},\d{3}\<close>, twelve characters\<close>

definition timestamp_pattern :: "atom list" where
  "timestamp_pattern =
     [Digit, Digit, Lit 0x3A, Digit, Digit, Lit 0x3A, Digit, Digit, Lit 0x2C,
      Digit, Digit, Digit]"

text \<open>\<open>/(\d{2}:\d{2}:\d{2},\d{3}) --> (\d{2}:\d{2}:\d{2},\d{3})/\<close>\<close>

definition timing_pattern :: "atom list" where
  "timing_pattern = timestamp_pattern @ map Lit (js '' --> '') @ timestamp_pattern"

text \<open>
  \<open>lines[1].match(...)\<close>: \<open>None\<close> for \<open>null\<close>, otherwise the two captured groups.
  The first group is the first twelve characters of the match, the second the twelve
  after the five of the arrow.
\<close>

definition timeMatch :: "jsstring \<Rightarrow> (jsstring \<times> jsstring) option" where
  "timeMatch line =
     (case regex_search timing_pattern line of
        None \<Rightarrow> None
      | Some m \<Rightarrow> Some (take 12 m, take 12 (drop 17 m)))"

text \<open>
  \<open>xs[i]\<close>: \<open>None\<close> stands for \<open>undefined\<close>, the value of an index outside the
  array.
\<close>

definition js_index :: "'a list \<Rightarrow> nat \<Rightarrow> 'a option" where
  "js_index xs i = (if i < length xs then Some (xs ! i) else None)"

text \<open>
  The caller wraps \<open>parseSRT\<close> in \<open>try\<close>/\<open>catch\<close>, so its result is a sum, with
  \<open>Inl\<close> for a thrown exception. The body has no \<open>throw\<close>, and \<open>replace\<close>,
  \<open>split\<close>, \<open>trim\<close>, \<open>match\<close>, \<open>slice\<close>, \<open>join\<close> and \<open>push\<close> do not throw on
  strings and arrays; what can throw is a method call on \<open>undefined\<close>, in
  \<open>lines[0].trim()\<close> and \<open>lines[1].match(...)\<close>.
\<close>

datatype js_exception = TypeError

text \<open>The body of the \<open>forEach\<close> callback: it pushes one block or nothing.\<close>

definition parse_block ::
  "jsstring \<Rightarrow> SubtitleBlock list \<Rightarrow> js_exception + SubtitleBlock list" where
  "parse_block block parsedBlocks =
     (let lines = block_lines block in
      if 3 \<le> length lines then
        (case js_index lines 0 of
           None \<Rightarrow> Inl TypeError
         | Some line0 \<Rightarrow>
             (case js_index lines 1 of
                None \<Rightarrow> Inl TypeError
              | Some line1 \<Rightarrow>
                  (case timeMatch line1 of
                     Some (t1, t2) \<Rightarrow>
                       Inr (parsedBlocks @
                         [\<lparr>block_id = js_trim line0, startTime = t1, endTime = t2,
                           originalText = js_join [0xA] (drop 2 lines), translatedText = []\<rparr>])
                   | None \<Rightarrow> Inr parsedBlocks)))
      else Inr parsedBlocks)"

text \<open>\<open>blocks.forEach(...)\<close>: an exception thrown by the callback ends the loop.\<close>

fun forEach_block ::
  "jsstring list \<Rightarrow> SubtitleBlock list \<Rightarrow> js_exception + SubtitleBlock list" where
  "forEach_block [] parsedBlocks = Inr parsedBlocks"
| "forEach_block (block # rest) parsedBlocks =
     (case parse_block block parsedBlocks of
        Inl e \<Rightarrow> Inl e
      | Inr parsedBlocks' \<Rightarrow> forEach_block rest parsedBlocks')"

definition parseSRT :: "jsstring \<Rightarrow> js_exception + SubtitleBlock list" where
  "parseSRT content = forEach_block (srt_blocks content) []"

section \<open>services/ollama.ts\<close>

text \<open>
  The pattern of the first \<open>replace\<close> in \<open>cleanHost\<close> is, in the source file, the three
  characters U+00EF, U+00BC, U+0161 (the file's bytes are C3 AF, C2 BC, C5 A1), under a
  comment that says "Replace Chinese colon". The full-width colon is the single code
  unit U+FF1A.
\<close>

definition colon_pattern :: jsstring where
  "colon_pattern = [0xEF, 0xBC, 0x161]"

definition fullwidth_colon :: jschar where
  "fullwidth_colon = 0xFF1A"

text \<open>\<open>cleaned.replace(/\/$/, '')\<close>: without the \<open>m\<close> flag, \<open>$\<close> is the end of input.\<close>

definition strip_trailing_slash :: "jsstring \<Rightarrow> jsstring" where
  "strip_trailing_slash s = (if s \<noteq> [] \<and> last s = 0x2F then butlast s else s)"

text \<open>\<open>/^https?:\/\//i.test(cleaned)\<close>\<close>

definition has_http_scheme :: "jsstring \<Rightarrow> bool" where
  "has_http_scheme s \<longleftrightarrow>
     matches_at (map LitCI (js ''http://'')) s \<or> matches_at (map LitCI (js ''https://'')) s"

definition cleanHost :: "jsstring \<Rightarrow> jsstring" where
  "cleanHost host =
     (let cleaned = js_trim host;
          cleaned = js_replace_all colon_pattern (js '':'') cleaned;
          cleaned = strip_trailing_slash cleaned
      in if \<not> has_http_scheme cleaned then js ''http://'' @ cleaned else cleaned)"

text \<open>
  The outcome of a \<open>fetch\<close>: the promise rejects (a transport failure), or a response
  arrives with a status and a body. \<open>response.ok\<close> is true for the statuses 200 to 299.
\<close>

datatype 'b fetch_result = Rejected | Replied nat 'b

definition response_ok :: "nat \<Rightarrow> bool" where
  "response_ok status \<longleftrightarrow> 200 \<le> status \<and> status \<le> 299"

datatype errorType = CORS | NETWORK | INVALID_URL

record ConnectionResult =
  ok :: bool
  errorType :: "errorType option"

text \<open>
  \<open>checkConnection\<close>. The constructor \<open>new URL\<close> belongs to the platform: \<open>url_ok\<close>
  says for which strings it does not throw. \<open>fetch\<close> is the environment's answer for
  each URL. The second component of the result lists the URLs that were fetched.
\<close>

definition checkConnection ::
  "(jsstring \<Rightarrow> bool) \<Rightarrow> (jsstring \<Rightarrow> 'b fetch_result) \<Rightarrow> jsstring \<Rightarrow>
   ConnectionResult \<times> jsstring list" where
  "checkConnection url_ok fetch host =
     (let sanitized = cleanHost host in
      if \<not> url_ok sanitized then (\<lparr>ok = False, errorType = Some INVALID_URL\<rparr>, [])
      else
        (let url = sanitized @ js ''/api/tags'' in
         case fetch url of
           Rejected \<Rightarrow> (\<lparr>ok = False, errorType = Some NETWORK\<rparr>, [url])
         | Replied status body \<Rightarrow>
             if response_ok status then (\<lparr>ok = True, errorType = None\<rparr>, [url])
             else if status = 403 then (\<lparr>ok = False, errorType = Some CORS\<rparr>, [url])
             else (\<lparr>ok = False, errorType = Some NETWORK\<rparr>, [url])))"

text \<open>The delimiter token, and the joined segments that the prompt embeds.\<close>

definition SPLIT :: jsstring where
  "SPLIT = js ''---SPLIT---''"

definition encode :: "jsstring list \<Rightarrow> jsstring" where
  "encode texts = js_join (js ''\<newline>---SPLIT---\<newline>'') texts"

text \<open>
  The part of \<open>translateBatch\<close> after \<open>rawOutput\<close> is known. The first component of
  the result says which \<open>return\<close> was taken: \<open>Primary\<close> for the delimiter split,
  \<open>Secondary\<close> for \<open>altSplit\<close>, \<open>Failsafe\<close> for \<open>return texts\<close>.
\<close>

datatype decode_path = Primary | Secondary | Failsafe

definition decode_traced :: "jsstring list \<Rightarrow> jsstring \<Rightarrow> decode_path \<times> jsstring list" where
  "decode_traced texts rawOutput =
     (let translatedLines = map js_trim (js_split SPLIT rawOutput) in
      if length translatedLines \<noteq> length texts then
        (let altSplit = filter (\<lambda>s. 0 < length (js_trim s)) (js_split (js ''\<newline>'') rawOutput) in
         if length altSplit = length texts then (Secondary, altSplit)
         else (Failsafe, texts))
      else (Primary, translatedLines))"

definition decode :: "jsstring list \<Rightarrow> jsstring \<Rightarrow> jsstring list" where
  "decode texts rawOutput = snd (decode_traced texts rawOutput)"

text \<open>
  \<open>translateBatch\<close>, given the outcome of its one \<open>fetch\<close>. The body of a response is
  \<open>Some r\<close> when it is JSON whose field \<open>response\<close> is the string \<open>r\<close>; otherwise
  \<open>response.json()\<close> or \<open>data.response.trim()\<close> throws. Every exception is caught
  and answered by \<open>texts\<close>.
\<close>

definition translateBatch :: "jsstring list \<Rightarrow> jsstring option fetch_result \<Rightarrow> jsstring list" where
  "translateBatch texts reply =
     (case reply of
        Rejected \<Rightarrow> texts
      | Replied status body \<Rightarrow>
          if \<not> response_ok status then texts
          else (case body of
                  None \<Rightarrow> texts
                | Some response \<Rightarrow> decode texts (js_trim response)))"

section \<open>App.tsx\<close>

definition BATCH_SIZE :: nat where
  "BATCH_SIZE = 10"

text \<open>
  The log lines are kept as values: \<open>Translating_lines a b\<close> is
  "Translating lines a to b...".
\<close>

datatype log_line = Starting_translation | Translating_lines nat nat | Translation_completed

text \<open>
  The component's state, with what the run does to the outside. \<open>dispatched\<close> lists
  the calls of \<open>translateBatch\<close> (the loop index and the texts passed).

  Line 128, \<open>setStats(prev => ({ ...prev, processedLines: currentProcessed }))\<close>, hands
  React an updater that reads the variable \<open>currentProcessed\<close> when React runs it, not
  when it is handed over. \<open>pending\<close> counts the updaters of line 128 that React has not
  run yet, and \<open>published\<close> lists the successive values that \<open>processedLines\<close> takes
  as the updates of \<open>startTranslation\<close> are run. Every other update of the run passes
  a value that is fixed when the setter is called, or leaves \<open>processedLines\<close> alone,
  so it is applied on the spot.
\<close>

record App =
  state :: AppState
  subtitleBlocks :: "SubtitleBlock list"
  stats :: TranslationStats
  errorMsg :: jsstring
  logs :: "log_line list"
  dispatched :: "(nat \<times> jsstring list) list"
  pending :: nat
  published :: "nat list"

definition addLog :: "log_line \<Rightarrow> App \<Rightarrow> App" where
  "addLog msg a = a\<lparr>logs := take 5 (msg # logs a)\<rparr>"

text \<open>
  React runs the pending updaters of line 128, while the variable \<open>currentProcessed\<close>
  has the given value: each of them sets \<open>processedLines\<close> to that value.
\<close>

definition run_pending :: "nat \<Rightarrow> App \<Rightarrow> App" where
  "run_pending currentProcessed a =
     (if pending a = 0 then a
      else a\<lparr>stats := (stats a)\<lparr>processedLines := currentProcessed\<rparr>,
             published := published a @ replicate (pending a) currentProcessed,
             pending := 0\<rparr>)"

text \<open>
  \<open>translatedTexts.forEach((text, index) => ...)\<close>: the guard \<open>newBlocks[i + index]\<close>
  is true when the index is within the array.
\<close>

fun forEach_write :: "nat \<Rightarrow> jsstring list \<Rightarrow> nat \<Rightarrow> SubtitleBlock list \<Rightarrow> SubtitleBlock list" where
  "forEach_write i [] index newBlocks = newBlocks"
| "forEach_write i (text # rest) index newBlocks =
     forEach_write i rest (index + 1)
       (if i + index < length newBlocks
        then newBlocks[i + index := (newBlocks ! (i + index))\<lparr>translatedText := text\<rparr>]
        else newBlocks)"

text \<open>
  One pass through the body of the \<open>for\<close> loop of \<open>startTranslation\<close>, at the loop
  index \<open>i\<close>. The state of the loop is the local \<open>currentProcessed\<close>, the local
  array \<open>newBlocks\<close> and the component's state. \<open>backend k\<close> is the outcome of the
  fetch of the \<open>k\<close>-th call of \<open>translateBatch\<close>. The function is suspended at
  \<open>await translateBatch(...)\<close>, and only there can React run between two statements of
  the loop: \<open>renders k\<close> says whether React runs its pending updates while the \<open>k\<close>-th
  call is awaited. (A React that runs an update inside the call of the setter gives
  \<open>processedLines\<close> the same values as one that renders during every call, since
  \<open>currentProcessed\<close> does not change between line 128 and the next \<open>await\<close>.)

  The arrays \<open>blocks\<close> and \<open>newBlocks\<close> hold the same objects; the loop reads
  \<open>originalText\<close> through \<open>blocks\<close> and writes \<open>translatedText\<close> through
  \<open>newBlocks\<close>, so \<open>blocks\<close> is passed along unchanged.
\<close>

definition loop_body ::
  "(nat \<Rightarrow> jsstring option fetch_result) \<Rightarrow> (nat \<Rightarrow> bool) \<Rightarrow> SubtitleBlock list \<Rightarrow> nat \<Rightarrow>
   nat \<times> SubtitleBlock list \<times> App \<Rightarrow> nat \<times> SubtitleBlock list \<times> App" where
  "loop_body backend renders blocks i s =
     (case s of (currentProcessed, newBlocks, a) \<Rightarrow>
        (let batch = js_slice blocks i (i + BATCH_SIZE);
             texts = map originalText batch;
             a1 = addLog (Translating_lines (i + 1) (min (i + BATCH_SIZE) (length blocks))) a;
             k = length (dispatched a1);
             a2 = (if renders k then run_pending currentProcessed a1 else a1);
             translatedTexts = translateBatch texts (backend k);
             a3 = a2\<lparr>dispatched := dispatched a2 @ [(i, texts)]\<rparr>;
             newBlocks' = forEach_write i translatedTexts 0 newBlocks;
             currentProcessed' = currentProcessed + length batch;
             a4 = a3\<lparr>subtitleBlocks := newBlocks'\<rparr>;
             a5 = a4\<lparr>pending := pending a4 + 1\<rparr>
         in (currentProcessed', newBlocks', a5)))"

text \<open>\<open>for (let i = 0; i < blocks.length; i += BATCH_SIZE)\<close>, from the index \<open>i\<close> on.\<close>

function startTranslation_loop ::
  "(nat \<Rightarrow> jsstring option fetch_result) \<Rightarrow> (nat \<Rightarrow> bool) \<Rightarrow> SubtitleBlock list \<Rightarrow> nat \<Rightarrow>
   nat \<times> SubtitleBlock list \<times> App \<Rightarrow> nat \<times> SubtitleBlock list \<times> App" where
  "startTranslation_loop backend renders blocks i s =
     (if i < length blocks
      then startTranslation_loop backend renders blocks (i + BATCH_SIZE)
             (loop_body backend renders blocks i s)
      else s)"
  by pat_completeness auto
termination
  by (relation "measure (\<lambda>(backend, renders, blocks, i, s). length blocks - i)")
     (auto simp: BATCH_SIZE_def)

text \<open>
  \<open>startTranslation\<close>; \<open>t_start\<close> and \<open>t_end\<close> are the two readings of \<open>Date.now()\<close>.
  The histories start with the run. The first update sets \<open>processedLines\<close> to the
  constant 0 and is run before every later one, so \<open>published\<close> starts with 0. After
  the function has returned, React runs what is still pending; \<open>currentProcessed\<close>
  then has its last value.
\<close>

definition startTranslation ::
  "(nat \<Rightarrow> jsstring option fetch_result) \<Rightarrow> (nat \<Rightarrow> bool) \<Rightarrow> nat \<Rightarrow> nat \<Rightarrow>
   SubtitleBlock list \<Rightarrow> App \<Rightarrow> App" where
  "startTranslation backend renders t_start t_end blocks a =
     (let a1 = a\<lparr>stats := (stats a)\<lparr>stats_startTime := Some t_start, processedLines := 0\<rparr>,
                 dispatched := [], pending := 0, published := [0]\<rparr>;
          a2 = addLog Starting_translation a1;
          (currentProcessed, newBlocks, a3) =
             startTranslation_loop backend renders blocks 0 (0, blocks, a2);
          a4 = a3\<lparr>stats := (stats a3)\<lparr>stats_endTime := Some t_end\<rparr>\<rparr>;
          a5 = a4\<lparr>state := COMPLETED\<rparr>;
          a6 = addLog Translation_completed a5
      in run_pending currentProcessed a6)"

text \<open>The \<open>onload\<close> handler of \<open>handleFileChange\<close>, given the text of the file.\<close>

definition handleFileChange ::
  "(nat \<Rightarrow> jsstring option fetch_result) \<Rightarrow> (nat \<Rightarrow> bool) \<Rightarrow> nat \<Rightarrow> nat \<Rightarrow> jsstring \<Rightarrow>
   App \<Rightarrow> App" where
  "handleFileChange backend renders t_start t_end content a =
     (case parseSRT content of
        Inr parsed \<Rightarrow>
          (let a1 = a\<lparr>subtitleBlocks := parsed\<rparr>;
               a2 = a1\<lparr>stats := (stats a1)\<lparr>totalLines := length parsed\<rparr>\<rparr>;
               a3 = a2\<lparr>state := PROCESSING\<rparr>
           in startTranslation backend renders t_start t_end parsed a3)
      | Inl e \<Rightarrow> a\<lparr>errorMsg := js ''Failed to parse SRT file.'', state := ERROR\<rparr>)"

section \<open>Notions used in the statements\<close>

text \<open>
  The state of the component before a file is chosen, as the \<open>useState\<close> calls of
  \<open>App\<close> give it; the histories are empty and nothing is pending.
\<close>

definition initial_app :: App where
  "initial_app =
     \<lparr>state = CONFIG, subtitleBlocks = [],
      stats = \<lparr>totalLines = 0, processedLines = 0, stats_startTime = None, stats_endTime = None\<rparr>,
      errorMsg = [], logs = [], dispatched = [], pending = 0, published = []\<rparr>"

text \<open>
  The texts of the \<open>k\<close>-th batch of a document: the original texts of the blocks
  from index \<open>k * BATCH_SIZE\<close> on, at most \<open>BATCH_SIZE\<close> of them.
\<close>

definition batch_texts :: "SubtitleBlock list \<Rightarrow> nat \<Rightarrow> jsstring list" where
  "batch_texts blocks k =
     map originalText (js_slice blocks (k * BATCH_SIZE) (k * BATCH_SIZE + BATCH_SIZE))"

text \<open>
  What \<open>translateBatch\<close> returns for the block at index \<open>j\<close>: the element
  for \<open>j\<close> of its result for the batch of \<open>j\<close> and the outcome of that batch's
  fetch.
\<close>

definition expected_text ::
  "(nat \<Rightarrow> jsstring option fetch_result) \<Rightarrow> SubtitleBlock list \<Rightarrow> nat \<Rightarrow> jsstring" where
  "expected_text backend blocks j =
     translateBatch (batch_texts blocks (j div BATCH_SIZE)) (backend (j div BATCH_SIZE))
       ! (j mod BATCH_SIZE)"

text \<open>
  The generate call fails: the fetch is rejected (a transport error), or the response
  has a status outside 200 to 299.
\<close>

definition generate_failed :: "jsstring option fetch_result \<Rightarrow> bool" where
  "generate_failed reply =
     (case reply of Rejected \<Rightarrow> True | Replied status body \<Rightarrow> \<not> response_ok status)"

text \<open>
  A block that \<open>parseSRT\<close> keeps: at least three lines after trimming, and the
  timing pattern found somewhere in the second.
\<close>

definition kept_block :: "jsstring \<Rightarrow> bool" where
  "kept_block block \<longleftrightarrow>
     3 \<le> length (block_lines block) \<and> timeMatch (block_lines block ! 1) \<noteq> None"

text \<open>
  A well-formed timing line, in the words of the file format: the line is
  \<open>HH:MM:SS,mmm --> HH:MM:SS,mmm\<close>, digits in the places of the letters, and nothing
  else.
\<close>

definition well_formed_timing_line :: "jsstring \<Rightarrow> bool" where
  "well_formed_timing_line line \<longleftrightarrow>
     length line = length timing_pattern \<and> matches_at timing_pattern line"

text \<open>The number of texts in the first \<open>c\<close> calls.\<close>

definition batches_total :: "(nat \<times> jsstring list) list \<Rightarrow> nat \<Rightarrow> nat" where
  "batches_total calls c = sum_list (map (\<lambda>call. length (snd call)) (take c calls))"

text \<open>
  The specification names the four results of \<open>checkConnection\<close> \<open>OK\<close>,
  \<open>FORBIDDEN\<close>, \<open>UNREACHABLE\<close> and \<open>INVALID_ADDRESS\<close>; the code returns
  \<open>{ok: true}\<close>, and \<open>{ok: false}\<close> with the error types \<open>CORS\<close>, \<open>NETWORK\<close>
  and \<open>INVALID_URL\<close>. Any other record is none of the four.
\<close>

datatype probe_outcome = OK | FORBIDDEN | UNREACHABLE | INVALID_ADDRESS

definition probe_outcome_of :: "ConnectionResult \<Rightarrow> probe_outcome option" where
  "probe_outcome_of r =
     (if ok r then (if errorType r = None then Some OK else None)
      else (case errorType r of
              Some CORS \<Rightarrow> Some FORBIDDEN
            | Some NETWORK \<Rightarrow> Some UNREACHABLE
            | Some INVALID_URL \<Rightarrow> Some INVALID_ADDRESS
            | None \<Rightarrow> None))"

text \<open>
  The pattern occurs in the string, at some position.
\<close>

fun occurs_in :: "'a list \<Rightarrow> 'a list \<Rightarrow> bool" where
  "occurs_in pat [] = (pat = [])"
| "occurs_in pat (c # cs) = (prefix pat (c # cs) \<or> occurs_in pat cs)"

section \<open>Invariants of the loop of \<open>startTranslation\<close>\<close>

text \<open>
  Before the pass at the loop index \<open>i\<close>, with \<open>a0\<close> the state at the start of
  the loop: \<open>i\<close> is a multiple of the batch size and below the length plus one
  batch; \<open>currentProcessed\<close> is \<open>i\<close>, capped by the length; one call has been
  dispatched for every batch before \<open>i\<close>; the fields that the loop does not write
  are those of \<open>a0\<close>.
\<close>

definition trace_inv ::
  "SubtitleBlock list \<Rightarrow> App \<Rightarrow> nat \<Rightarrow> nat \<times> SubtitleBlock list \<times> App \<Rightarrow> bool" where
  "trace_inv blocks a0 i s =
     (case s of (currentProcessed, newBlocks, a) \<Rightarrow>
        i mod BATCH_SIZE = 0 \<and> i < length blocks + BATCH_SIZE \<and>
        currentProcessed = min i (length blocks) \<and>
        dispatched a = map (\<lambda>k. (k * BATCH_SIZE, batch_texts blocks k)) [0 ..< i div BATCH_SIZE] \<and>
        totalLines (stats a) = totalLines (stats a0) \<and>
        stats_startTime (stats a) = stats_startTime (stats a0) \<and>
        state a = state a0 \<and> errorMsg a = errorMsg a0)"

text \<open>
  Before the pass at \<open>i\<close>: \<open>newBlocks\<close> is \<open>blocks\<close> with the translated
  text written into the blocks before \<open>i\<close>, and it is what the component shows as
  soon as one batch is done.
\<close>

definition blocks_inv ::
  "(nat \<Rightarrow> jsstring option fetch_result) \<Rightarrow> SubtitleBlock list \<Rightarrow> App \<Rightarrow> nat \<Rightarrow>
   nat \<times> SubtitleBlock list \<times> App \<Rightarrow> bool" where
  "blocks_inv backend blocks a0 i s =
     (case s of (currentProcessed, newBlocks, a) \<Rightarrow>
        length newBlocks = length blocks \<and>
        (\<forall>j < length blocks.
           newBlocks ! j =
             (if j < i then (blocks ! j)\<lparr>translatedText := expected_text backend blocks j\<rparr>
              else blocks ! j)) \<and>
        subtitleBlocks a = (if i = 0 then subtitleBlocks a0 else newBlocks))"

text \<open>
  The processed counts, for a document of \<open>n\<close> blocks, when \<open>k\<close> batches are done
  and \<open>currentProcessed\<close> is \<open>v\<close>: the published counts start with 0, are sorted and
  at most \<open>v\<close>; one update is published or pending for the start and for every batch
  done; \<open>processedLines\<close> is the last published count; and the count at position \<open>j\<close>
  is the size of the first \<open>c\<close> batches for some \<open>c\<close> from \<open>j\<close> to \<open>k\<close>.
\<close>

definition progress_inv :: "nat \<Rightarrow> nat \<Rightarrow> nat \<Rightarrow> App \<Rightarrow> bool" where
  "progress_inv n k v a \<longleftrightarrow>
     published a \<noteq> [] \<and> hd (published a) = 0 \<and> sorted (published a) \<and>
     (\<forall>x \<in> set (published a). x \<le> v) \<and>
     length (published a) + pending a = Suc k \<and>
     processedLines (stats a) = last (published a) \<and>
     (\<forall>j < length (published a).
        \<exists>c. j \<le> c \<and> c \<le> k \<and> published a ! j = min (c * BATCH_SIZE) n)"

text \<open>
  When React renders during every call: at most the update of the last batch is
  pending, and the count at position \<open>c\<close> is the size of the first \<open>c\<close> batches.
\<close>

definition steady_inv :: "nat \<Rightarrow> nat \<Rightarrow> App \<Rightarrow> bool" where
  "steady_inv n k a \<longleftrightarrow>
     pending a = (if k = 0 then 0 else 1) \<and>
     published a = map (\<lambda>c. min (c * BATCH_SIZE) n) [0 ..< Suc k - pending a]"

text \<open>When React renders during no call: every update of a batch is pending.\<close>

definition lazy_inv :: "nat \<Rightarrow> App \<Rightarrow> bool" where
  "lazy_inv k a \<longleftrightarrow> pending a = k \<and> published a = [0]"

definition schedule_inv ::
  "(nat \<Rightarrow> bool) \<Rightarrow> SubtitleBlock list \<Rightarrow> nat \<Rightarrow> nat \<times> SubtitleBlock list \<times> App \<Rightarrow> bool" where
  "schedule_inv renders blocks i s =
     (case s of (currentProcessed, newBlocks, a) \<Rightarrow>
        progress_inv (length blocks) (i div BATCH_SIZE) currentProcessed a \<and>
        ((\<forall>k. renders k) \<longrightarrow> steady_inv (length blocks) (i div BATCH_SIZE) a) \<and>
        ((\<forall>k. \<not> renders k) \<longrightarrow> lazy_inv (i div BATCH_SIZE) a))"

section \<open>Sample data\<close>

definition sample_block :: SubtitleBlock where
  "sample_block =
     \<lparr>block_id = js ''1'', startTime = js ''00:00:01,000'', endTime = js ''00:00:02,000'',
      originalText = js ''konnichiwa'', translatedText = []\<rparr>"

text \<open>
  A file of two blocks that are kept, with a block of one line between them; the text of
  the second block starts with two spaces.
\<close>

definition sample_srt :: jsstring where
  "sample_srt = js ''1\<newline>00:00:01,000 --> 00:00:02,000\<newline>konnichiwa\<newline>\<newline>broken\<newline>\<newline>2\<newline>00:00:03,000 --> 00:00:04,500\<newline>  sayonara\<newline>''"

text \<open>
  A file with no block that is kept: one line, and three lines without a timing.
\<close>

definition malformed_srt :: jsstring where
  "malformed_srt = js ''hello\<newline>\<newline>1\<newline>no timing here\<newline>some words''"

text \<open>
  A block of three lines whose second line has a timing between other characters.
\<close>

definition junk_timing_srt :: jsstring where
  "junk_timing_srt = js '' 7 \<newline>xx100:00:01,000 --> 00:00:02,0009yy\<newline>hi''"

section \<open>Evaluation of string literals\<close>

lemmas str_defs = js_def SPLIT_def js_trim_def is_ws_def

lemmas cleanHost_defs =
  cleanHost_def colon_pattern_def fullwidth_colon_def strip_trailing_slash_def
  has_http_scheme_def canonicalize_def

section \<open>The codec: \<open>decode\<close>\<close>

text \<open>
  Claim C1. For every segment sequence and every payload, \<open>decode\<close> returns a sequence
  of exactly as many elements as there are segments, and so does \<open>translateBatch\<close> for
  every outcome of its fetch; and when neither the delimiter split nor the newline split
  of the payload has that many pieces, \<open>decode\<close> returns the segments themselves.
\<close>

theorem decode_length_failsafe:
  "length (decode texts rawOutput) = length texts \<and>
   length (translateBatch texts reply) = length texts \<and>
   (length (map js_trim (js_split SPLIT rawOutput)) \<noteq> length texts \<and>
    length (filter (\<lambda>s. 0 < length (js_trim s)) (js_split (js ''\<newline>'') rawOutput))
      \<noteq> length texts
    \<longrightarrow> decode texts rawOutput = texts)"
  by (auto simp add: decode_def translateBatch_def decode_traced_def Let_def
      split: fetch_result.splits option.splits)

text \<open>
  Two segments and the payload \<open>x\<close>: one piece on either path, so the two segments come
  back.
\<close>

theorem decode_length_failsafe_witness:
  "length (map js_trim (js_split SPLIT (js ''x''))) \<noteq> length [js ''a'', js ''b''] \<and>
   length (filter (\<lambda>s. 0 < length (js_trim s)) (js_split (js ''\<newline>'') (js ''x'')))
     \<noteq> length [js ''a'', js ''b''] \<and>
   decode [js ''a'', js ''b''] (js ''x'') = [js ''a'', js ''b'']"
proof -
  have h1: "length (map js_trim (js_split SPLIT (js ''x''))) \<noteq> length [js ''a'', js ''b'']"
    by (simp add: str_defs)
  have h2: "length (filter (\<lambda>s. 0 < length (js_trim s)) (js_split (js ''\<newline>'') (js ''x'')))
     \<noteq> length [js ''a'', js ''b'']"
    by (simp add: str_defs)
  from h1 h2 decode_length_failsafe [of "[js ''a'', js ''b'']" "js ''x''"]
  show ?thesis by blast
qed

text \<open>
  Claim C8. When the delimiter split of the payload does not have the expected number
  of pieces, and the lines of the payload that are not empty or white space only are
  exactly that many, \<open>decode\<close> returns those lines.
\<close>

theorem decode_newline_recovery:
  "length (map js_trim (js_split SPLIT rawOutput)) \<noteq> length texts \<Longrightarrow>
   length (filter (\<lambda>s. 0 < length (js_trim s)) (js_split (js ''\<newline>'') rawOutput))
     = length texts \<Longrightarrow>
   decode texts rawOutput =
     filter (\<lambda>s. 0 < length (js_trim s)) (js_split (js ''\<newline>'') rawOutput)"
  by (simp add: decode_def decode_traced_def Let_def)

text \<open>
  The scenario of the specification: three segments, a payload of two delimiter-separated
  pieces and three non-empty lines (and one empty line, which is discarded).
\<close>

theorem decode_newline_recovery_witness:
  "length (map js_trim (js_split SPLIT (js ''a---SPLIT---b\<newline>c\<newline>\<newline>d''))) = 2 \<and>
   decode [js ''x'', js ''y'', js ''z''] (js ''a---SPLIT---b\<newline>c\<newline>\<newline>d'')
     = [js ''a---SPLIT---b'', js ''c'', js ''d'']"
proof -
  have h1: "length (map js_trim (js_split SPLIT (js ''a---SPLIT---b\<newline>c\<newline>\<newline>d'')))
      \<noteq> length [js ''x'', js ''y'', js ''z'']"
    by (simp add: str_defs)
  have h2: "length (filter (\<lambda>s. 0 < length (js_trim s))
        (js_split (js ''\<newline>'') (js ''a---SPLIT---b\<newline>c\<newline>\<newline>d'')))
      = length [js ''x'', js ''y'', js ''z'']"
    by (simp add: str_defs)
  have "decode [js ''x'', js ''y'', js ''z''] (js ''a---SPLIT---b\<newline>c\<newline>\<newline>d'')
      = filter (\<lambda>s. 0 < length (js_trim s))
          (js_split (js ''\<newline>'') (js ''a---SPLIT---b\<newline>c\<newline>\<newline>d''))"
    by (rule decode_newline_recovery [OF h1 h2])
  then show ?thesis by (simp add: str_defs)
qed

text \<open>
  Claim C9, as stated, fails: for no segments and the empty payload, \<open>decode\<close> does
  return the empty sequence, but it is the newline split path that returns it.
\<close>

theorem decode_empty_counterexample:
  "\<not> (encode [] = [] \<and> decode [] (encode []) = [] \<and>
       fst (decode_traced [] (encode [])) \<noteq> Primary \<and>
       fst (decode_traced [] (encode [])) \<noteq> Secondary)"
  by (simp add: encode_def decode_traced_def str_defs)

text \<open>
  Claim C9, amended. The empty segment list encodes to the empty payload, and decoding
  the empty payload for no segments returns the empty sequence; the delimiter split of
  the empty payload is one empty piece, not none, and the result is the newline split,
  which has no line left.
\<close>

theorem decode_empty:
  "encode [] = [] \<and> decode [] (encode []) = [] \<and>
   map js_trim (js_split SPLIT (encode [])) = [[]] \<and>
   decode_traced [] (encode []) = (Secondary, [])"
  by (simp add: encode_def decode_def decode_traced_def str_defs)

section \<open>The backend client: \<open>cleanHost\<close> and \<open>checkConnection\<close>\<close>

text \<open>
  The two examples of the specification: a scheme is put in front of a bare address, and
  one trailing slash is removed.
\<close>

lemma cleanHost_examples:
  "cleanHost (js ''127.0.0.1:11434'') = js ''http://127.0.0.1:11434''"
  "cleanHost (js ''http://host/'') = js ''http://host''"
  "cleanHost (js ''  HTTPS://host//  '') = js ''HTTPS://host/''"
  by (simp_all add: cleanHost_defs str_defs)

text \<open>What \<open>cleanHost\<close> does replace by a colon is the three-character pattern.\<close>

lemma cleanHost_colon_pattern:
  "cleanHost (js ''127.0.0.1'' @ colon_pattern @ js ''11434'') = js ''http://127.0.0.1:11434''"
  by (simp add: cleanHost_defs str_defs)

text \<open>
  Claim C6 at the address \<open>127.0.0.1\<close>, full-width colon, \<open>11434\<close>: the claim (and the
  comment in the code) say that the full-width colon becomes an ASCII colon;
  \<open>cleanHost\<close> returns the address with the full-width colon still in it.
\<close>

theorem cleanHost_fullwidth_colon_kept:
  "cleanHost (js ''127.0.0.1'' @ [fullwidth_colon] @ js ''11434'')
     = js ''http://127.0.0.1'' @ [fullwidth_colon] @ js ''11434'' \<and>
   cleanHost (js ''127.0.0.1'' @ [fullwidth_colon] @ js ''11434'') \<noteq> js ''http://127.0.0.1:11434''"
  by (simp add: cleanHost_defs str_defs)

text \<open>
  Claim C7. The result of \<open>checkConnection\<close> is always one of the four outcomes. An
  address that \<open>new URL\<close> rejects after cleaning gives \<open>INVALID_ADDRESS\<close> and no URL
  is fetched. Otherwise the status 403 gives \<open>FORBIDDEN\<close>, any other status outside 200
  to 299 and a rejected fetch give \<open>UNREACHABLE\<close>, and a status from 200 to 299 gives
  \<open>OK\<close>.
\<close>

theorem checkConnection_outcomes:
  "(\<exists>out. probe_outcome_of (fst (checkConnection url_ok fetch host)) = Some out) \<and>
   (\<not> url_ok (cleanHost host) \<longrightarrow>
      probe_outcome_of (fst (checkConnection url_ok fetch host)) = Some INVALID_ADDRESS \<and>
      snd (checkConnection url_ok fetch host) = []) \<and>
   (url_ok (cleanHost host) \<and> fetch (cleanHost host @ js ''/api/tags'') = Replied 403 body \<longrightarrow>
      probe_outcome_of (fst (checkConnection url_ok fetch host)) = Some FORBIDDEN) \<and>
   (url_ok (cleanHost host) \<and> fetch (cleanHost host @ js ''/api/tags'') = Replied status body \<and>
    \<not> (200 \<le> status \<and> status \<le> 299) \<and> status \<noteq> 403 \<longrightarrow>
      probe_outcome_of (fst (checkConnection url_ok fetch host)) = Some UNREACHABLE) \<and>
   (url_ok (cleanHost host) \<and> fetch (cleanHost host @ js ''/api/tags'') = Rejected \<longrightarrow>
      probe_outcome_of (fst (checkConnection url_ok fetch host)) = Some UNREACHABLE) \<and>
   (url_ok (cleanHost host) \<and> fetch (cleanHost host @ js ''/api/tags'') = Replied status body \<and>
    200 \<le> status \<and> status \<le> 299 \<longrightarrow>
      probe_outcome_of (fst (checkConnection url_ok fetch host)) = Some OK)"
  by (auto simp add: checkConnection_def probe_outcome_of_def response_ok_def Let_def
      split: fetch_result.splits)

text \<open>
  Five probes of the address \<open>h\<close>: rejected by \<open>new URL\<close>; answered by 403, by 500 and
  by 200; and a fetch that fails.
\<close>

theorem checkConnection_outcomes_witness:
  "probe_outcome_of (fst (checkConnection (\<lambda>u. False) (\<lambda>u. Replied 200 ()) (js ''h'')))
     = Some INVALID_ADDRESS \<and>
   snd (checkConnection (\<lambda>u. False) (\<lambda>u. Replied 200 ()) (js ''h'')) = [] \<and>
   probe_outcome_of (fst (checkConnection (\<lambda>u. True) (\<lambda>u. Replied 403 ()) (js ''h'')))
     = Some FORBIDDEN \<and>
   probe_outcome_of (fst (checkConnection (\<lambda>u. True) (\<lambda>u. Replied 500 ()) (js ''h'')))
     = Some UNREACHABLE \<and>
   probe_outcome_of (fst (checkConnection (\<lambda>u. True) (\<lambda>u. Rejected :: unit fetch_result) (js ''h'')))
     = Some UNREACHABLE \<and>
   probe_outcome_of (fst (checkConnection (\<lambda>u. True) (\<lambda>u. Replied 200 ()) (js ''h'')))
     = Some OK"
proof -
  have a: "probe_outcome_of (fst (checkConnection (\<lambda>u. False) (\<lambda>u. Replied 200 ()) (js ''h'')))
     = Some INVALID_ADDRESS \<and>
   snd (checkConnection (\<lambda>u. False) (\<lambda>u. Replied 200 ()) (js ''h'')) = []"
    using checkConnection_outcomes [of "\<lambda>u. False" "\<lambda>u. Replied 200 ()" "js ''h''"]
    by simp
  have b: "probe_outcome_of (fst (checkConnection (\<lambda>u. True) (\<lambda>u. Replied 403 ()) (js ''h'')))
     = Some FORBIDDEN"
    using checkConnection_outcomes [of "\<lambda>u. True" "\<lambda>u. Replied 403 ()" "js ''h''" "()" 403]
    by simp
  have c: "probe_outcome_of (fst (checkConnection (\<lambda>u. True) (\<lambda>u. Replied 500 ()) (js ''h'')))
     = Some UNREACHABLE"
    using checkConnection_outcomes [of "\<lambda>u. True" "\<lambda>u. Replied 500 ()" "js ''h''" "()" 500]
    by simp
  have d: "probe_outcome_of (fst (checkConnection (\<lambda>u. True) (\<lambda>u. Rejected :: unit fetch_result) (js ''h'')))
     = Some UNREACHABLE"
    using checkConnection_outcomes [of "\<lambda>u. True" "\<lambda>u. Rejected :: unit fetch_result" "js ''h''"]
    by simp
  have e: "probe_outcome_of (fst (checkConnection (\<lambda>u. True) (\<lambda>u. Replied 200 ()) (js ''h'')))
     = Some OK"
    using checkConnection_outcomes [of "\<lambda>u. True" "\<lambda>u. Replied 200 ()" "js ''h''" "()" 200]
    by simp
  from a b c d e show ?thesis by blast
qed

section \<open>The parser: \<open>parseSRT\<close>\<close>

lemmas srt_defs =
  parseSRT_def srt_blocks_def normalize_line_endings_def block_lines_def parse_block_def
  js_index_def timeMatch_def timing_pattern_def timestamp_pattern_def

text \<open>
  The search finds no match exactly when the pattern matches at no position of the line:
  the timing may stand anywhere in the second line of a block.
\<close>

lemma regex_search_None:
  "regex_search pat s = None \<longleftrightarrow> (\<forall>pre m. s = pre @ m \<longrightarrow> \<not> matches_at pat m)"
proof (induction s)
  case Nil
  then show ?case by simp
next
  case (Cons c cs)
  show ?case
  proof (cases "matches_at pat (c # cs)")
    case True
    then have "\<not> (\<forall>pre m. c # cs = pre @ m \<longrightarrow> \<not> matches_at pat m)"
      by (metis append_Nil)
    with True show ?thesis by simp
  next
    case False
    have "(\<forall>pre m. c # cs = pre @ m \<longrightarrow> \<not> matches_at pat m) \<longleftrightarrow>
        (\<forall>pre m. cs = pre @ m \<longrightarrow> \<not> matches_at pat m)"
    proof
      assume h: "\<forall>pre m. c # cs = pre @ m \<longrightarrow> \<not> matches_at pat m"
      show "\<forall>pre m. cs = pre @ m \<longrightarrow> \<not> matches_at pat m"
      proof (intro allI impI)
        fix pre m assume "cs = pre @ m"
        then have "c # cs = (c # pre) @ m" by simp
        with h show "\<not> matches_at pat m" by blast
      qed
    next
      assume h: "\<forall>pre m. cs = pre @ m \<longrightarrow> \<not> matches_at pat m"
      show "\<forall>pre m. c # cs = pre @ m \<longrightarrow> \<not> matches_at pat m"
      proof (intro allI impI)
        fix pre m assume e: "c # cs = pre @ m"
        show "\<not> matches_at pat m"
        proof (cases pre)
          case Nil
          with e False show ?thesis by simp
        next
          case (Cons p ps)
          with e have "cs = ps @ m" by simp
          with h show ?thesis by blast
        qed
      qed
    qed
    with False Cons.IH show ?thesis by simp
  qed
qed

lemma timeMatch_None:
  "timeMatch line = None \<longleftrightarrow> (\<forall>pre m. line = pre @ m \<longrightarrow> \<not> matches_at timing_pattern m)"
  by (simp add: timeMatch_def regex_search_None[symmetric] split: option.splits)

text \<open>
  Under its guard the callback reads \<open>lines[0]\<close> and \<open>lines[1]\<close> inside the array, so
  it never throws: it returns the list as it is, or with one more entry.
\<close>

lemma parse_block_cases:
  "parse_block block parsedBlocks =
     (if kept_block block
      then Inr (parsedBlocks @
        [\<lparr>block_id = js_trim (block_lines block ! 0),
          startTime = fst (the (timeMatch (block_lines block ! 1))),
          endTime = snd (the (timeMatch (block_lines block ! 1))),
          originalText = js_join [0xA] (drop 2 (block_lines block)), translatedText = []\<rparr>])
      else Inr parsedBlocks)"
  by (auto simp add: parse_block_def kept_block_def js_index_def Let_def split: option.splits)

lemma parse_block_dropped:
  "length (block_lines block) < 3 \<or> timeMatch (block_lines block ! 1) = None \<Longrightarrow>
   parse_block block parsedBlocks = Inr parsedBlocks"
  by (auto simp add: parse_block_cases kept_block_def)

lemma forEach_block_returns:
  "\<exists>entries. forEach_block bs parsedBlocks = Inr entries \<and>
     length entries = length parsedBlocks + length (filter kept_block bs)"
proof (induction bs arbitrary: parsedBlocks)
  case Nil
  then show ?case by simp
next
  case (Cons b bs)
  obtain acc where acc: "parse_block b parsedBlocks = Inr acc"
    and len: "length acc = length parsedBlocks + (if kept_block b then 1 else 0)"
    by (cases "kept_block b") (simp_all add: parse_block_cases)
  from Cons.IH[of acc] obtain entries where "forEach_block bs acc = Inr entries"
    and "length entries = length acc + length (filter kept_block bs)"
    by blast
  then show ?case by (simp add: acc len)
qed

lemma forEach_block_all_dropped:
  "\<forall>block \<in> set bs. length (block_lines block) < 3 \<or> timeMatch (block_lines block ! 1) = None \<Longrightarrow>
   forEach_block bs parsedBlocks = Inr parsedBlocks"
  by (induction bs arbitrary: parsedBlocks) (simp_all add: parse_block_dropped)

lemma parseSRT_returns: "\<exists>entries. parseSRT content = Inr entries"
  using forEach_block_returns[of "srt_blocks content" "[]"] by (auto simp add: parseSRT_def)

lemma parseSRT_sample:
  "parseSRT sample_srt =
     Inr [\<lparr>block_id = js ''1'', startTime = js ''00:00:01,000'', endTime = js ''00:00:02,000'',
            originalText = js ''konnichiwa'', translatedText = []\<rparr>,
          \<lparr>block_id = js ''2'', startTime = js ''00:00:03,000'', endTime = js ''00:00:04,500'',
            originalText = js ''  sayonara'', translatedText = []\<rparr>]"
  by (simp add: sample_srt_def srt_defs js_def js_trim_def is_ws_def)

section \<open>The run: \<open>startTranslation\<close>\<close>

declare startTranslation_loop.simps [simp del]

text \<open>
  An invariant that holds before the loop and that every pass keeps holds after the
  loop, at an index that is not below the length.
\<close>

lemma loop_invariant:
  assumes "I i s"
    and "\<And>i s. I i s \<Longrightarrow> i < length blocks \<Longrightarrow> I (i + BATCH_SIZE) (loop_body backend renders blocks i s)"
  shows "\<exists>i'. length blocks \<le> i' \<and> I i' (startTranslation_loop backend renders blocks i s)"
  using assms
proof (induction backend renders blocks i s rule: startTranslation_loop.induct)
  case (1 backend renders blocks i s)
  show ?case
  proof (cases "i < length blocks")
    case True
    have "I (i + BATCH_SIZE) (loop_body backend renders blocks i s)"
      using "1.prems"(1) True by (rule "1.prems"(2))
    with True have "\<exists>i'. length blocks \<le> i' \<and>
        I i' (startTranslation_loop backend renders blocks (i + BATCH_SIZE) (loop_body backend renders blocks i s))"
      using "1.prems"(2) by (rule "1.IH")
    then show ?thesis
      by (subst startTranslation_loop.simps) (simp add: True)
  next
    case False
    with "1.prems"(1) show ?thesis
      by (subst startTranslation_loop.simps) (auto intro!: exI[of _ i])
  qed
qed

lemma batch_texts_length:
  "length (batch_texts blocks k) = min BATCH_SIZE (length blocks - k * BATCH_SIZE)"
  by (simp add: batch_texts_def js_slice_def)

lemma translateBatch_length: "length (translateBatch texts reply) = length texts"
  by (auto simp add: decode_def translateBatch_def decode_traced_def Let_def
      split: fetch_result.splits option.splits)

lemma translateBatch_failed: "generate_failed reply \<Longrightarrow> translateBatch texts reply = texts"
  by (auto simp add: generate_failed_def translateBatch_def split: fetch_result.splits)

lemma forEach_write_length: "length (forEach_write i tts index nb) = length nb"
  by (induction tts arbitrary: index nb) auto

text \<open>
  The write-back touches the blocks from \<open>i + index\<close> on, one for each text, and
  only their translated text.
\<close>

lemma forEach_write_nth:
  "j < length nb \<Longrightarrow>
   forEach_write i tts index nb ! j =
     (if i + index \<le> j \<and> j < i + index + length tts
      then (nb ! j)\<lparr>translatedText := tts ! (j - (i + index))\<rparr>
      else nb ! j)"
proof (induction tts arbitrary: index nb)
  case Nil
  then show ?case by auto
next
  case (Cons t rest)
  let ?nb = "if i + index < length nb
        then nb[i + index := (nb ! (i + index))\<lparr>translatedText := t\<rparr>] else nb"
  have len: "j < length ?nb" using Cons.prems by simp
  have "forEach_write i (t # rest) index nb ! j = forEach_write i rest (index + 1) ?nb ! j"
    by simp
  also have "\<dots> = (if i + (index + 1) \<le> j \<and> j < i + (index + 1) + length rest
      then (?nb ! j)\<lparr>translatedText := rest ! (j - (i + (index + 1)))\<rparr>
      else ?nb ! j)"
    by (rule Cons.IH[OF len])
  also have "\<dots> = (if i + index \<le> j \<and> j < i + index + length (t # rest)
      then (nb ! j)\<lparr>translatedText := (t # rest) ! (j - (i + index))\<rparr>
      else nb ! j)"
  proof -
    consider "j < i + index" | "j = i + index" | "i + index < j" by linarith
    then show ?thesis
    proof cases
      case 1
      then show ?thesis by simp
    next
      case 2
      with Cons.prems show ?thesis by simp
    next
      case 3
      with Cons.prems show ?thesis by (auto simp add: nth_Cons')
    qed
  qed
  finally show ?case .
qed

lemma batch_count_covers: "(n::nat) \<le> (n + 9) div 10 * 10"
proof -
  have "(n + 9) div 10 * 10 + (n + 9) mod 10 = n + 9" by (rule div_mult_mod_eq)
  moreover have "(n + 9) mod 10 \<le> 9" by simp
  ultimately show ?thesis by linarith
qed

lemma batch_start_in_range:
  fixes k n :: nat
  shows "k < (n + 9) div 10 \<Longrightarrow> k * 10 < n"
proof -
  assume "k < (n + 9) div 10"
  then have "Suc k * 10 \<le> (n + 9) div 10 * 10" by (simp add: Suc_le_eq del: mult_Suc)
  also have "\<dots> \<le> n + 9" by simp
  finally show ?thesis by simp
qed

lemma loop_body_trace:
  assumes "trace_inv blocks a0 i s" "i < length blocks"
  shows "trace_inv blocks a0 (i + BATCH_SIZE) (loop_body backend renders blocks i s)"
proof -
  obtain cp nb a where s: "s = (cp, nb, a)" by (cases s)
  from assms(1) have i: "i mod BATCH_SIZE = 0" by (simp add: trace_inv_def s)
  define k where "k = i div BATCH_SIZE"
  have k: "i = k * BATCH_SIZE"
    using div_mult_mod_eq[of i BATCH_SIZE] i by (simp add: k_def)
  have d: "(i + BATCH_SIZE) div BATCH_SIZE = Suc k" "i div BATCH_SIZE = k"
    by (simp_all add: k BATCH_SIZE_def)
  have len: "length (js_slice blocks i (i + BATCH_SIZE)) = min BATCH_SIZE (length blocks - i)"
    by (simp add: js_slice_def)
  have bt: "map originalText (js_slice blocks i (i + BATCH_SIZE)) = batch_texts blocks k"
    by (simp add: batch_texts_def k)
  have sum: "min i (length blocks) + min BATCH_SIZE (length blocks - i)
      = min (i + BATCH_SIZE) (length blocks)"
    using assms(2) by simp
  have sum': "min (BATCH_SIZE + k * BATCH_SIZE) (length blocks) = min (i + BATCH_SIZE) (length blocks)"
    by (simp add: k add.commute)
  have sum2: "i + min BATCH_SIZE (length blocks - i) = min (i + BATCH_SIZE) (length blocks)"
    using assms(2) by simp
  show ?thesis
    using assms
    by (simp add: trace_inv_def s loop_body_def Let_def addLog_def run_pending_def len bt d
        sum sum' sum2 k[symmetric])
qed

lemma window_div_mod:
  assumes "i = k * BATCH_SIZE" "i \<le> j" "j < i + BATCH_SIZE"
  shows "j div BATCH_SIZE = k" "j mod BATCH_SIZE = j - i"
proof -
  obtain r where r: "j = r + k * BATCH_SIZE" "r < BATCH_SIZE"
    using assms by (metis add.commute le_Suc_ex nat_add_left_cancel_less)
  show "j div BATCH_SIZE = k" "j mod BATCH_SIZE = j - i"
    using r by (simp_all add: assms(1) BATCH_SIZE_def)
qed

lemma loop_body_blocks:
  assumes "trace_inv blocks a0 i s" "blocks_inv backend blocks a0 i s" "i < length blocks"
  shows "blocks_inv backend blocks a0 (i + BATCH_SIZE) (loop_body backend renders blocks i s)"
proof -
  obtain cp nb a where s: "s = (cp, nb, a)" by (cases s)
  define k where "k = i div BATCH_SIZE"
  from assms(1) have i: "i mod BATCH_SIZE = 0" by (simp add: trace_inv_def s)
  have k: "i = k * BATCH_SIZE"
    using div_mult_mod_eq[of i BATCH_SIZE] i by (simp add: k_def)
  from assms(1) have calls: "length (dispatched a) = k"
    by (simp add: trace_inv_def s k_def)
  have bt: "map originalText (js_slice blocks i (i + BATCH_SIZE)) = batch_texts blocks k"
    by (simp add: batch_texts_def k)
  define tts where "tts = translateBatch (batch_texts blocks k) (backend k)"
  have len_tts: "length tts = min BATCH_SIZE (length blocks - i)"
    by (simp add: tts_def translateBatch_length batch_texts_length k)
  from assms(2) have len_nb: "length nb = length blocks"
    and old: "\<And>j. j < length blocks \<Longrightarrow> nb ! j =
      (if j < i then (blocks ! j)\<lparr>translatedText := expected_text backend blocks j\<rparr>
       else blocks ! j)"
    by (simp_all add: blocks_inv_def s)
  have body: "loop_body backend renders blocks i s =
      (cp + length (js_slice blocks i (i + BATCH_SIZE)), forEach_write i tts 0 nb,
       snd (snd (loop_body backend renders blocks i s)))"
    "subtitleBlocks (snd (snd (loop_body backend renders blocks i s))) = forEach_write i tts 0 nb"
    by (simp_all add: loop_body_def s Let_def addLog_def run_pending_def bt calls tts_def)
  have new: "forEach_write i tts 0 nb ! j =
      (if j < i + BATCH_SIZE then (blocks ! j)\<lparr>translatedText := expected_text backend blocks j\<rparr>
       else blocks ! j)" if j: "j < length blocks" for j
  proof -
    have w: "forEach_write i tts 0 nb ! j =
        (if i \<le> j \<and> j < i + length tts then (nb ! j)\<lparr>translatedText := tts ! (j - i)\<rparr>
         else nb ! j)"
      using forEach_write_nth[of j nb i tts 0] j len_nb by simp
    consider "j < i" | "i \<le> j" "j < i + BATCH_SIZE" | "i + BATCH_SIZE \<le> j" by linarith
    then show ?thesis
    proof cases
      case 1
      then show ?thesis using w old[OF j] by simp
    next
      case 2
      have "j < i + length tts" using 2 j by (simp add: len_tts)
      moreover have "expected_text backend blocks j = tts ! (j - i)"
        using window_div_mod[OF k 2] by (simp add: expected_text_def tts_def)
      ultimately show ?thesis using w old[OF j] 2 by simp
    next
      case 3
      then have "\<not> j < i + length tts" by (simp add: len_tts)
      then show ?thesis using w old[OF j] 3 by simp
    qed
  qed
  show ?thesis
    apply (subst body(1))
    apply (simp add: blocks_inv_def body(2) forEach_write_length len_nb new BATCH_SIZE_def)
    done
qed

text \<open>
  Running the pending updates changes the processed count, its history and the number
  of pending updates, and nothing else.
\<close>

lemma run_pending_frame:
  "state (run_pending v a) = state a"
  "errorMsg (run_pending v a) = errorMsg a"
  "dispatched (run_pending v a) = dispatched a"
  "subtitleBlocks (run_pending v a) = subtitleBlocks a"
  "totalLines (stats (run_pending v a)) = totalLines (stats a)"
  "stats_startTime (stats (run_pending v a)) = stats_startTime (stats a)"
  "stats_endTime (stats (run_pending v a)) = stats_endTime (stats a)"
  "pending (run_pending v a) = 0"
  by (simp_all add: run_pending_def)

lemma run_pending_progress:
  assumes "progress_inv n k v a" and v: "v = min (k * BATCH_SIZE) n"
  shows "progress_inv n k v (run_pending v a)"
proof (cases "pending a = 0")
  case True
  with assms(1) show ?thesis by (simp add: run_pending_def)
next
  case False
  let ?P = "published a" and ?p = "pending a"
  from assms(1) have ne: "?P \<noteq> []" and hd: "hd ?P = 0" and so: "sorted ?P"
    and le: "\<forall>x \<in> set ?P. x \<le> v" and len: "length ?P + ?p = Suc k"
    and old: "\<forall>j < length ?P. \<exists>c. j \<le> c \<and> c \<le> k \<and> ?P ! j = min (c * BATCH_SIZE) n"
    by (simp_all add: progress_inv_def)
  have pub: "published (run_pending v a) = ?P @ replicate ?p v"
    and pen: "pending (run_pending v a) = 0"
    and cur: "processedLines (stats (run_pending v a)) = v"
    using False by (simp_all add: run_pending_def)
  have "sorted (?P @ replicate ?p v)"
    using so le by (simp add: sorted_append)
  moreover have "last (?P @ replicate ?p v) = v"
    using False by simp
  moreover have "\<exists>c. j \<le> c \<and> c \<le> k \<and> (?P @ replicate ?p v) ! j = min (c * BATCH_SIZE) n"
    if j: "j < length ?P + ?p" for j
  proof (cases "j < length ?P")
    case True
    with old show ?thesis by (simp add: nth_append)
  next
    case False
    with j have "(?P @ replicate ?p v) ! j = v" by (simp add: nth_append)
    moreover from j len have "j \<le> k" by simp
    ultimately show ?thesis using v by blast
  qed
  moreover have "\<forall>x \<in> set (?P @ replicate ?p v). x \<le> v"
    using le by auto
  ultimately show ?thesis
    using ne hd len by (simp add: progress_inv_def pub pen cur)
qed

lemma progress_next:
  assumes "progress_inv n k v a" and "v \<le> v'"
    and "published a' = published a" and "pending a' = Suc (pending a)"
    and "processedLines (stats a') = processedLines (stats a)"
  shows "progress_inv n (Suc k) v' a'"
proof -
  have "\<exists>c. j \<le> c \<and> c \<le> Suc k \<and> published a ! j = min (c * BATCH_SIZE) n"
    if "j < length (published a)" for j
  proof -
    from assms(1) that obtain c where "j \<le> c" "c \<le> k"
      "published a ! j = min (c * BATCH_SIZE) n"
      unfolding progress_inv_def by blast
    then show ?thesis by (intro exI[of _ c]) simp
  qed
  moreover have "\<forall>x \<in> set (published a). x \<le> v'"
    using assms(1,2) by (auto simp add: progress_inv_def)
  ultimately show ?thesis
    using assms(1) by (simp add: progress_inv_def assms(3,4,5))
qed

lemma run_pending_steady:
  assumes "steady_inv n k a" and "v = min (k * BATCH_SIZE) n"
  shows "published (run_pending v a) = map (\<lambda>c. min (c * BATCH_SIZE) n) [0 ..< Suc k]"
proof (cases "k = 0")
  case True
  with assms(1) show ?thesis by (simp add: steady_inv_def run_pending_def)
next
  case False
  with assms show ?thesis by (simp add: steady_inv_def run_pending_def)
qed

lemma run_pending_lazy:
  assumes "lazy_inv k a"
  shows "published (run_pending v a) = 0 # replicate k v"
  using assms by (simp add: lazy_inv_def run_pending_def)

text \<open>A pass of the loop keeps what is known of the processed counts.\<close>

lemma loop_body_schedule:
  assumes "trace_inv blocks a0 i s" "schedule_inv renders blocks i s" "i < length blocks"
  shows "schedule_inv renders blocks (i + BATCH_SIZE) (loop_body backend renders blocks i s)"
proof -
  obtain cp nb a where s: "s = (cp, nb, a)" by (cases s)
  define k where "k = i div BATCH_SIZE"
  define n where "n = length blocks"
  from assms(1) have i: "i mod BATCH_SIZE = 0" and cp: "cp = min i n"
    by (simp_all add: trace_inv_def s n_def)
  have k: "i = k * BATCH_SIZE"
    using div_mult_mod_eq[of i BATCH_SIZE] i by (simp add: k_def)
  have d: "(i + BATCH_SIZE) div BATCH_SIZE = Suc k"
    by (simp add: k BATCH_SIZE_def)
  have v: "cp = min (k * BATCH_SIZE) n" using cp k by simp
  define a1 where "a1 = addLog (Translating_lines (i + 1) (min (i + BATCH_SIZE) (length blocks))) a"
  define a2 where "a2 = (if renders (length (dispatched a1)) then run_pending cp a1 else a1)"
  define r where "r = loop_body backend renders blocks i s"
  obtain cp' nb' a5 where r: "r = (cp', nb', a5)" by (cases r)
  have body: "cp' = cp + length (js_slice blocks i (i + BATCH_SIZE))"
    "published a5 = published a2" "pending a5 = Suc (pending a2)"
    "processedLines (stats a5) = processedLines (stats a2)"
    using r unfolding r_def by (auto simp add: loop_body_def s Let_def a1_def a2_def)
  have up: "cp \<le> cp'" by (simp add: body(1))
  from assms(2) have p: "progress_inv n k cp a"
    and st: "(\<forall>k. renders k) \<longrightarrow> steady_inv n k a"
    and lz: "(\<forall>k. \<not> renders k) \<longrightarrow> lazy_inv k a"
    by (simp_all add: schedule_inv_def s n_def k_def)
  have p1: "progress_inv n k cp a1"
    using p by (simp add: progress_inv_def a1_def addLog_def)
  have p2: "progress_inv n k cp a2"
    using p1 run_pending_progress[OF p1 v] by (simp add: a2_def)
  have "progress_inv n (Suc k) cp' a5"
    using p2 up body(2,3,4) by (rule progress_next)
  moreover have "steady_inv n (Suc k) a5" if all: "\<forall>k. renders k"
  proof -
    from st all have "steady_inv n k a1" by (simp add: steady_inv_def a1_def addLog_def)
    then have "published (run_pending cp a1) = map (\<lambda>c. min (c * BATCH_SIZE) n) [0 ..< Suc k]"
      using v by (rule run_pending_steady)
    with all show ?thesis
      by (simp add: steady_inv_def body(2,3) a2_def run_pending_frame(8))
  qed
  moreover have "lazy_inv (Suc k) a5" if none: "\<forall>k. \<not> renders k"
  proof -
    from lz none have "lazy_inv k a1" by (simp add: lazy_inv_def a1_def addLog_def)
    with none show ?thesis by (simp add: lazy_inv_def body(2,3) a2_def)
  qed
  ultimately show ?thesis
    unfolding r_def[symmetric] r by (simp add: schedule_inv_def d n_def)
qed

lemma exit_index:
  assumes "n \<le> i" "i < n + BATCH_SIZE" "i mod BATCH_SIZE = 0"
  shows "i div BATCH_SIZE = (n + 9) div 10"
proof -
  from assms(3) have "10 dvd i" by (simp add: BATCH_SIZE_def mod_eq_0_iff_dvd)
  then obtain q where i: "i = 10 * q" by (rule dvdE)
  have "10 * q \<le> n + 9" "n + 9 < 10 * Suc q"
    using assms(1,2) by (simp_all add: i BATCH_SIZE_def)
  then have "(n + 9) div 10 = q" by (rule div_nat_eqI)
  then show ?thesis by (simp add: i BATCH_SIZE_def)
qed

lemma run_invariants:
  assumes "dispatched a = []" "published a = [0]" "pending a = 0" "processedLines (stats a) = 0"
  shows "\<exists>i'. length blocks \<le> i' \<and>
     trace_inv blocks a i' (startTranslation_loop backend renders blocks 0 (0, blocks, a)) \<and>
     blocks_inv backend blocks a i' (startTranslation_loop backend renders blocks 0 (0, blocks, a)) \<and>
     schedule_inv renders blocks i' (startTranslation_loop backend renders blocks 0 (0, blocks, a))"
proof (rule loop_invariant[where I = "\<lambda>i s. trace_inv blocks a i s \<and>
    blocks_inv backend blocks a i s \<and> schedule_inv renders blocks i s"])
  have "progress_inv (length blocks) 0 0 a"
    using assms by (simp add: progress_inv_def)
  moreover have "steady_inv (length blocks) 0 a" "lazy_inv 0 a"
    using assms by (simp_all add: steady_inv_def lazy_inv_def)
  ultimately show "trace_inv blocks a 0 (0, blocks, a) \<and> blocks_inv backend blocks a 0 (0, blocks, a) \<and>
    schedule_inv renders blocks 0 (0, blocks, a)"
    using assms by (simp add: trace_inv_def blocks_inv_def schedule_inv_def BATCH_SIZE_def)
next
  fix i s
  assume "trace_inv blocks a i s \<and> blocks_inv backend blocks a i s \<and> schedule_inv renders blocks i s"
    "i < length blocks"
  then show "trace_inv blocks a (i + BATCH_SIZE) (loop_body backend renders blocks i s) \<and>
    blocks_inv backend blocks a (i + BATCH_SIZE) (loop_body backend renders blocks i s) \<and>
    schedule_inv renders blocks (i + BATCH_SIZE) (loop_body backend renders blocks i s)"
    by (blast intro: loop_body_trace loop_body_blocks loop_body_schedule)
qed

text \<open>
  The state after \<open>startTranslation\<close>: one call for each batch, every block with the
  text that \<open>translateBatch\<close> returned for it, no update pending, and the processed
  counts as the invariants describe them, with all the batches done.
\<close>

lemma startTranslation_result:
  fixes backend renders t_start t_end blocks a
  defines "fin \<equiv> startTranslation backend renders t_start t_end blocks a"
  shows "state fin = COMPLETED"
    and "errorMsg fin = errorMsg a"
    and "dispatched fin =
      map (\<lambda>k. (k * BATCH_SIZE, batch_texts blocks k)) [0 ..< (length blocks + 9) div 10]"
    and "progress_inv (length blocks) ((length blocks + 9) div 10) (length blocks) fin"
    and "processedLines (stats fin) = last (published fin)"
    and "totalLines (stats fin) = totalLines (stats a)"
    and "stats_startTime (stats fin) = Some t_start"
    and "stats_endTime (stats fin) = Some t_end"
    and "length (subtitleBlocks fin) = (if blocks = [] then length (subtitleBlocks a) else length blocks)"
    and "blocks \<noteq> [] \<Longrightarrow> j < length blocks \<Longrightarrow>
      subtitleBlocks fin ! j = (blocks ! j)\<lparr>translatedText := expected_text backend blocks j\<rparr>"
    and "pending fin = 0"
    and "\<forall>k. renders k \<Longrightarrow> published fin =
      map (\<lambda>c. min (c * BATCH_SIZE) (length blocks)) [0 ..< Suc ((length blocks + 9) div 10)]"
    and "\<forall>k. \<not> renders k \<Longrightarrow> published fin =
      0 # replicate ((length blocks + 9) div 10) (length blocks)"
proof -
  define a2 where "a2 = addLog Starting_translation
    (a\<lparr>stats := (stats a)\<lparr>stats_startTime := Some t_start, processedLines := 0\<rparr>,
       dispatched := [], pending := 0, published := [0]\<rparr>)"
  define r where "r = startTranslation_loop backend renders blocks 0 (0, blocks, a2)"
  obtain cp nb a3 where r: "r = (cp, nb, a3)" by (cases r)
  define a6 where "a6 = addLog Translation_completed
      (a3\<lparr>stats := (stats a3)\<lparr>stats_endTime := Some t_end\<rparr>, state := COMPLETED\<rparr>)"
  have init: "dispatched a2 = []" "published a2 = [0]" "pending a2 = 0"
    "processedLines (stats a2) = 0"
    by (simp_all add: a2_def addLog_def)
  from run_invariants[OF init, of blocks backend renders]
  obtain i' where i': "length blocks \<le> i'"
    and tr: "trace_inv blocks a2 i' (cp, nb, a3)"
    and bl: "blocks_inv backend blocks a2 i' (cp, nb, a3)"
    and sc: "schedule_inv renders blocks i' (cp, nb, a3)"
    unfolding r_def[symmetric] r by blast
  from tr have m: "i' mod BATCH_SIZE = 0" "i' < length blocks + BATCH_SIZE"
    by (simp_all add: trace_inv_def)
  have d: "i' div BATCH_SIZE = (length blocks + 9) div 10"
    using i' m(2) m(1) by (rule exit_index)
  from tr i' have cp: "cp = length blocks" by (simp add: trace_inv_def)
  have v: "length blocks = min ((length blocks + 9) div 10 * BATCH_SIZE) (length blocks)"
    using batch_count_covers[of "length blocks"] by (simp add: BATCH_SIZE_def)
  have fin: "fin = run_pending (length blocks) a6"
    unfolding fin_def startTranslation_def Let_def a2_def[symmetric] r_def[symmetric] r a6_def
    by (simp add: cp)
  show "state fin = COMPLETED" by (simp add: fin run_pending_frame a6_def addLog_def)
  show "errorMsg fin = errorMsg a"
    using tr by (simp add: fin run_pending_frame a6_def addLog_def trace_inv_def a2_def)
  show "dispatched fin =
      map (\<lambda>k. (k * BATCH_SIZE, batch_texts blocks k)) [0 ..< (length blocks + 9) div 10]"
    using tr by (simp add: fin run_pending_frame a6_def addLog_def trace_inv_def d)
  from sc have "progress_inv (length blocks) ((length blocks + 9) div 10) (length blocks) a3"
    by (simp add: schedule_inv_def d cp)
  then have p6: "progress_inv (length blocks) ((length blocks + 9) div 10) (length blocks) a6"
    by (simp add: progress_inv_def a6_def addLog_def)
  then show p: "progress_inv (length blocks) ((length blocks + 9) div 10) (length blocks) fin"
    unfolding fin using v by (rule run_pending_progress)
  then show "processedLines (stats fin) = last (published fin)"
    by (simp add: progress_inv_def)
  show "totalLines (stats fin) = totalLines (stats a)"
    using tr by (simp add: fin run_pending_frame a6_def addLog_def trace_inv_def a2_def)
  show "stats_startTime (stats fin) = Some t_start"
    using tr by (simp add: fin run_pending_frame a6_def addLog_def trace_inv_def a2_def)
  show "stats_endTime (stats fin) = Some t_end"
    by (simp add: fin run_pending_frame a6_def addLog_def)
  have zero: "i' = 0 \<longleftrightarrow> blocks = []"
    using i' m(2) m(1) by (auto simp add: BATCH_SIZE_def)
  show "length (subtitleBlocks fin) = (if blocks = [] then length (subtitleBlocks a) else length blocks)"
    using bl zero by (simp add: fin run_pending_frame a6_def addLog_def blocks_inv_def a2_def)
  show "subtitleBlocks fin ! j = (blocks ! j)\<lparr>translatedText := expected_text backend blocks j\<rparr>"
    if "blocks \<noteq> []" "j < length blocks"
    using bl zero that i' by (simp add: fin run_pending_frame a6_def addLog_def blocks_inv_def)
  show "pending fin = 0" by (simp add: fin run_pending_frame)
  show "published fin =
      map (\<lambda>c. min (c * BATCH_SIZE) (length blocks)) [0 ..< Suc ((length blocks + 9) div 10)]"
    if all: "\<forall>k. renders k"
  proof -
    from sc all have "steady_inv (length blocks) ((length blocks + 9) div 10) a3"
      by (simp add: schedule_inv_def d)
    then have "steady_inv (length blocks) ((length blocks + 9) div 10) a6"
      by (simp add: steady_inv_def a6_def addLog_def)
    then show ?thesis unfolding fin using v by (rule run_pending_steady)
  qed
  show "published fin = 0 # replicate ((length blocks + 9) div 10) (length blocks)"
    if none: "\<forall>k. \<not> renders k"
  proof -
    from sc none have "lazy_inv ((length blocks + 9) div 10) a3"
      by (simp add: schedule_inv_def d)
    then have "lazy_inv ((length blocks + 9) div 10) a6"
      by (simp add: lazy_inv_def a6_def addLog_def)
    then show ?thesis unfolding fin by (rule run_pending_lazy)
  qed
qed

lemma handleFileChange_run:
  "parseSRT content = Inr parsed \<Longrightarrow>
   handleFileChange backend renders t_start t_end content a =
     startTranslation backend renders t_start t_end parsed
       (a\<lparr>subtitleBlocks := parsed, stats := (stats a)\<lparr>totalLines := length parsed\<rparr>,
          state := PROCESSING\<rparr>)"
  by (simp add: handleFileChange_def Let_def)

lemma windows_concat:
  "concat (map (\<lambda>k. [k * 10 ..< min (Suc k * 10) n]) [0 ..< m]) = [0 ..< min (m * 10) n]"
proof (induction m)
  case 0
  then show ?case by simp
next
  case (Suc m)
  show ?case
  proof (cases "m * 10 \<le> n")
    case True
    then have "[0 ..< min (Suc m * 10) n] = [0 ..< m * 10] @ [m * 10 ..< min (Suc m * 10) n]"
      using upt_add_eq_append[of 0 "m * 10" "min (Suc m * 10) n - m * 10"] by simp
    with Suc True show ?thesis by (simp add: min_absorb1)
  next
    case False
    with Suc show ?thesis by simp
  qed
qed

lemma batch_texts_nth:
  assumes "j < length blocks"
  shows "batch_texts blocks (j div BATCH_SIZE) ! (j mod BATCH_SIZE) = originalText (blocks ! j)"
proof -
  have le: "j div 10 * 10 \<le> length blocks"
    using assms div_mult_mod_eq[of j 10] by linarith
  have lt: "j mod 10 < length blocks - j div 10 * 10"
    using assms div_mult_mod_eq[of j 10] by linarith
  have "j div 10 * 10 + j mod 10 = j" by simp
  with le lt show ?thesis
    by (simp add: batch_texts_def js_slice_def BATCH_SIZE_def)
qed

lemma dispatched_ranges:
  "concat (map (\<lambda>(i, texts). [i ..< i + length texts])
     (map (\<lambda>k. (k * BATCH_SIZE, batch_texts blocks k)) [0 ..< (length blocks + 9) div 10]))
   = [0 ..< length blocks]"
proof -
  let ?n = "length blocks" and ?m = "(length blocks + 9) div 10"
  have "map (\<lambda>(i, texts). [i ..< i + length texts])
      (map (\<lambda>k. (k * BATCH_SIZE, batch_texts blocks k)) [0 ..< ?m])
    = map (\<lambda>k. [k * 10 ..< min (Suc k * 10) ?n]) [0 ..< ?m]"
  proof (simp only: map_map, rule map_cong[OF refl])
    fix k assume "k \<in> set [0 ..< ?m]"
    then have "k * 10 < ?n" by (simp add: batch_start_in_range)
    then show "((\<lambda>(i, texts). [i ..< i + length texts]) \<circ> (\<lambda>k. (k * BATCH_SIZE, batch_texts blocks k))) k
        = [k * 10 ..< min (Suc k * 10) ?n]"
      by (simp add: batch_texts_length BATCH_SIZE_def min_def add.commute)
  qed
  then have "concat (map (\<lambda>(i, texts). [i ..< i + length texts])
      (map (\<lambda>k. (k * BATCH_SIZE, batch_texts blocks k)) [0 ..< ?m]))
    = [0 ..< min (?m * 10) ?n]"
    by (simp only: windows_concat)
  also have "min (?m * 10) ?n = ?n"
    using batch_count_covers[of ?n] by simp
  finally show ?thesis .
qed

lemma published_step:
  assumes "k < (n + 9) div 10"
  shows "min (Suc k * 10) n = min (k * 10) n + min 10 (n - k * 10)"
  using batch_start_in_range[OF assms] by simp

lemma batches_total_closed:
  assumes "c \<le> (length blocks + 9) div 10"
  shows "batches_total
      (map (\<lambda>k. (k * BATCH_SIZE, batch_texts blocks k)) [0 ..< (length blocks + 9) div 10]) c
    = min (c * BATCH_SIZE) (length blocks)"
  using assms
proof (induction c)
  case 0
  then show ?case by (simp add: batches_total_def)
next
  case (Suc c)
  let ?D = "map (\<lambda>k. (k * BATCH_SIZE, batch_texts blocks k)) [0 ..< (length blocks + 9) div 10]"
  from Suc.prems have c: "c < (length blocks + 9) div 10" by simp
  then have "take (Suc c) ?D = take c ?D @ [?D ! c]"
    by (simp add: take_Suc_conv_app_nth)
  then have "batches_total ?D (Suc c) = batches_total ?D c + length (snd (?D ! c))"
    by (simp add: batches_total_def)
  also have "length (snd (?D ! c)) = min 10 (length blocks - c * 10)"
    using c by (simp add: batch_texts_length BATCH_SIZE_def)
  also have "batches_total ?D c = min (c * 10) (length blocks)"
    using Suc.IH c by (simp add: BATCH_SIZE_def)
  also have "min (c * 10) (length blocks) + min 10 (length blocks - c * 10)
      = min (Suc c * 10) (length blocks)"
    using published_step[OF c] by simp
  finally show ?case by (simp add: BATCH_SIZE_def)
qed

lemma startTranslation_processed:
  "last (published (startTranslation backend renders t_start t_end blocks a)) = length blocks"
  "processedLines (stats (startTranslation backend renders t_start t_end blocks a)) = length blocks"
  "length (published (startTranslation backend renders t_start t_end blocks a))
     = Suc ((length blocks + 9) div 10)"
proof -
  let ?fin = "startTranslation backend renders t_start t_end blocks a"
  let ?n = "length blocks" and ?m = "(length blocks + 9) div 10"
  have p: "progress_inv ?n ?m ?n ?fin" by (rule startTranslation_result(4))
  have pen: "pending ?fin = 0" by (rule startTranslation_result(11))
  from p pen show len: "length (published ?fin) = Suc ?m"
    by (simp add: progress_inv_def)
  from p len obtain c where c: "?m \<le> c" "c \<le> ?m" "published ?fin ! ?m = min (c * BATCH_SIZE) ?n"
    unfolding progress_inv_def by (metis lessI)
  from p have "last (published ?fin) = published ?fin ! ?m"
    by (simp add: progress_inv_def last_conv_nth len)
  also have "\<dots> = min (?m * 10) ?n" using c by (simp add: BATCH_SIZE_def)
  also have "\<dots> = ?n" using batch_count_covers[of ?n] by simp
  finally show l: "last (published ?fin) = ?n" .
  show "processedLines (stats ?fin) = ?n"
    using l by (simp add: startTranslation_result(5))
qed

section \<open>The claims on the parser and the run\<close>

text \<open>
  Claim C10, as stated, fails in one part: a block whose second line is not a well-formed
  timing line is not always dropped. The expression is searched for, not matched
  against the whole line, so the block below, whose second line has other characters
  before and after the timing, is kept, with the timing cut out of the line.
\<close>

theorem parseSRT_junk_timing_kept:
  "3 \<le> length (block_lines junk_timing_srt) \<and>
   block_lines junk_timing_srt ! 1 = js ''xx100:00:01,000 --> 00:00:02,0009yy'' \<and>
   \<not> well_formed_timing_line (block_lines junk_timing_srt ! 1) \<and>
   parseSRT junk_timing_srt =
     Inr [\<lparr>block_id = js ''7'', startTime = js ''00:00:01,000'', endTime = js ''00:00:02,000'',
            originalText = js ''hi'', translatedText = []\<rparr>]"
  by (simp add: junk_timing_srt_def srt_defs js_def js_trim_def is_ws_def
      well_formed_timing_line_def)

text \<open>
  Claim C10, amended. \<open>parseSRT\<close> returns a sequence of entries for every input and
  never throws; it has one entry for each block of at least three lines whose second
  line contains the timing pattern. A block with fewer than three lines, or whose second
  line contains the timing pattern at no position, adds nothing to the result. A block
  of at least three lines whose second line contains the pattern at some position adds
  one entry, whatever stands around the pattern. When no block of the document does, the
  result is empty, and in every case \<open>handleFileChange\<close> goes on to the run and ends
  in \<open>COMPLETED\<close>, with the error message untouched, never in \<open>ERROR\<close>.
\<close>

theorem parseSRT_drops_unmatched_blocks:
  "(\<exists>entries. parseSRT content = Inr entries \<and>
      length entries = length (filter kept_block (srt_blocks content))) \<and>
   (length (block_lines block) < 3 \<or>
    (\<forall>pre m. block_lines block ! 1 = pre @ m \<longrightarrow> \<not> matches_at timing_pattern m) \<longrightarrow>
      parse_block block parsedBlocks = Inr parsedBlocks) \<and>
   (3 \<le> length (block_lines block) \<and> block_lines block ! 1 = pre @ m \<and>
    matches_at timing_pattern m \<longrightarrow>
      (\<exists>entry. parse_block block parsedBlocks = Inr (parsedBlocks @ [entry]))) \<and>
   ((\<forall>block \<in> set (srt_blocks content).
       length (block_lines block) < 3 \<or>
       (\<forall>pre m. block_lines block ! 1 = pre @ m \<longrightarrow> \<not> matches_at timing_pattern m)) \<longrightarrow>
      parseSRT content = Inr []) \<and>
   state (handleFileChange backend renders t_start t_end content a) = COMPLETED \<and>
   errorMsg (handleFileChange backend renders t_start t_end content a) = errorMsg a"
proof (intro conjI)
  show "\<exists>entries. parseSRT content = Inr entries \<and>
      length entries = length (filter kept_block (srt_blocks content))"
    using forEach_block_returns[of "srt_blocks content" "[]"] by (simp add: parseSRT_def)
  show "length (block_lines block) < 3 \<or>
    (\<forall>pre m. block_lines block ! 1 = pre @ m \<longrightarrow> \<not> matches_at timing_pattern m) \<longrightarrow>
      parse_block block parsedBlocks = Inr parsedBlocks"
    by (simp add: parse_block_dropped timeMatch_None)
  show "3 \<le> length (block_lines block) \<and> block_lines block ! 1 = pre @ m \<and>
    matches_at timing_pattern m \<longrightarrow>
      (\<exists>entry. parse_block block parsedBlocks = Inr (parsedBlocks @ [entry]))"
  proof
    assume h: "3 \<le> length (block_lines block) \<and> block_lines block ! 1 = pre @ m \<and>
      matches_at timing_pattern m"
    then have "timeMatch (block_lines block ! 1) \<noteq> None"
      unfolding timeMatch_None by blast
    with h have "kept_block block" by (simp add: kept_block_def)
    then show "\<exists>entry. parse_block block parsedBlocks = Inr (parsedBlocks @ [entry])"
      by (simp add: parse_block_cases)
  qed
  show "(\<forall>block \<in> set (srt_blocks content).
       length (block_lines block) < 3 \<or>
       (\<forall>pre m. block_lines block ! 1 = pre @ m \<longrightarrow> \<not> matches_at timing_pattern m)) \<longrightarrow>
      parseSRT content = Inr []"
    by (simp add: parseSRT_def forEach_block_all_dropped timeMatch_None)
  obtain parsed where parsed: "parseSRT content = Inr parsed"
    using parseSRT_returns by blast
  note run = handleFileChange_run[OF parsed]
  show "state (handleFileChange backend renders t_start t_end content a) = COMPLETED"
    unfolding run by (rule startTranslation_result(1))
  show "errorMsg (handleFileChange backend renders t_start t_end content a) = errorMsg a"
    unfolding run by (simp add: startTranslation_result(2))
qed

text \<open>
  The file with no block that is kept: its two blocks are dropped, one for its line
  count and one for its second line, and the result is empty. The block with a timing
  between other characters gives an entry.
\<close>

theorem parseSRT_drops_unmatched_blocks_witness:
  "srt_blocks malformed_srt = [js ''hello'', js ''1\<newline>no timing here\<newline>some words''] \<and>
   length (block_lines (js ''hello'')) < 3 \<and>
   timeMatch (block_lines (js ''1\<newline>no timing here\<newline>some words'') ! 1) = None \<and>
   parse_block (js ''hello'') [sample_block] = Inr [sample_block] \<and>
   parseSRT malformed_srt = Inr [] \<and>
   (\<exists>entry. parse_block junk_timing_srt [sample_block] = Inr ([sample_block] @ [entry]))"
proof -
  have b: "srt_blocks malformed_srt = [js ''hello'', js ''1\<newline>no timing here\<newline>some words'']"
    by (simp add: malformed_srt_def srt_defs js_def)
  have h1: "length (block_lines (js ''hello'')) < 3"
    by (simp add: srt_defs js_def js_trim_def is_ws_def)
  have h2: "timeMatch (block_lines (js ''1\<newline>no timing here\<newline>some words'') ! 1) = None"
    by (simp add: srt_defs js_def js_trim_def is_ws_def)
  have all: "\<forall>block \<in> set (srt_blocks malformed_srt).
      length (block_lines block) < 3 \<or>
      (\<forall>pre m. block_lines block ! 1 = pre @ m \<longrightarrow> \<not> matches_at timing_pattern m)"
    using h1 h2 by (simp add: b timeMatch_None)
  have k: "3 \<le> length (block_lines junk_timing_srt) \<and>
      block_lines junk_timing_srt ! 1 = js ''xx1'' @ js ''00:00:01,000 --> 00:00:02,0009yy'' \<and>
      matches_at timing_pattern (js ''00:00:01,000 --> 00:00:02,0009yy'')"
    by (simp add: junk_timing_srt_def srt_defs js_def js_trim_def is_ws_def)
  note t = parseSRT_drops_unmatched_blocks
    [where content = malformed_srt and block = "js ''hello''"
       and parsedBlocks = "[sample_block]"]
  note u = parseSRT_drops_unmatched_blocks
    [where content = malformed_srt and block = junk_timing_srt and pre = "js ''xx1''"
       and m = "js ''00:00:01,000 --> 00:00:02,0009yy''" and parsedBlocks = "[sample_block]"]
  from t h1 have "parse_block (js ''hello'') [sample_block] = Inr [sample_block]" by blast
  moreover from t all have "parseSRT malformed_srt = Inr []" by blast
  moreover from u k
  have "\<exists>entry. parse_block junk_timing_srt [sample_block] = Inr ([sample_block] @ [entry])"
    by blast
  ultimately show ?thesis using b h1 h2 by blast
qed

text \<open>
  Claim C4. The index windows of the calls that the run dispatches, in the order of the
  calls, are the indices of the document in order: the windows are contiguous and
  disjoint and cover every index, in document order. Each call carries the original
  texts of its window, which has at least one and at most ten blocks. A document of 23
  blocks gives three calls, at the indices 0, 10 and 20, of sizes 10, 10 and 3.
\<close>

theorem batches_partition_document:
  "concat (map (\<lambda>(i, texts). [i ..< i + length texts])
     (dispatched (startTranslation backend renders t_start t_end blocks a))) = [0 ..< length blocks] \<and>
   (\<forall>(i, texts) \<in> set (dispatched (startTranslation backend renders t_start t_end blocks a)).
      texts = map originalText (js_slice blocks i (i + BATCH_SIZE)) \<and>
      0 < length texts \<and> length texts \<le> 10) \<and>
   (length blocks = 23 \<longrightarrow>
      map (\<lambda>(i, texts). (i, length texts)) (dispatched (startTranslation backend renders t_start t_end blocks a))
        = [(0, 10), (10, 10), (20, 3)])"
proof (intro conjI)
  let ?D = "dispatched (startTranslation backend renders t_start t_end blocks a)"
  have D: "?D = map (\<lambda>k. (k * BATCH_SIZE, batch_texts blocks k)) [0 ..< (length blocks + 9) div 10]"
    by (rule startTranslation_result(3))
  show "concat (map (\<lambda>(i, texts). [i ..< i + length texts]) ?D) = [0 ..< length blocks]"
    unfolding D by (rule dispatched_ranges)
  show "\<forall>(i, texts) \<in> set ?D.
      texts = map originalText (js_slice blocks i (i + BATCH_SIZE)) \<and>
      0 < length texts \<and> length texts \<le> 10"
  proof (clarify)
    fix i texts assume "(i, texts) \<in> set ?D"
    then obtain k where k: "k < (length blocks + 9) div 10" "i = k * BATCH_SIZE"
        "texts = batch_texts blocks k"
      unfolding D by auto
    from k(1) have "k * 10 < length blocks" by (rule batch_start_in_range)
    then show "texts = map originalText (js_slice blocks i (i + BATCH_SIZE)) \<and>
        0 < length texts \<and> length texts \<le> 10"
      by (simp add: k batch_texts_length) (simp add: batch_texts_def BATCH_SIZE_def)
  qed
  show "length blocks = 23 \<longrightarrow>
      map (\<lambda>(i, texts). (i, length texts)) ?D = [(0, 10), (10, 10), (20, 3)]"
  proof
    assume n: "length blocks = 23"
    have "[0 ..< (23 + 9) div 10] = [0, 1, 2::nat]" by (simp add: upt_conv_Cons)
    then show "map (\<lambda>(i, texts). (i, length texts)) ?D = [(0, 10), (10, 10), (20, 3)]"
      unfolding D by (simp add: n batch_texts_length BATCH_SIZE_def)
  qed
qed

text \<open>
  A document of 23 blocks, every fetch rejected.
\<close>

theorem batches_partition_document_witness:
  "length (replicate 23 sample_block) = 23 \<and>
   map (\<lambda>(i, texts). (i, length texts))
     (dispatched (startTranslation (\<lambda>k. Rejected) (\<lambda>k. True) 0 1 (replicate 23 sample_block) initial_app))
     = [(0, 10), (10, 10), (20, 3)] \<and>
   concat (map (\<lambda>(i, texts). [i ..< i + length texts])
     (dispatched (startTranslation (\<lambda>k. Rejected) (\<lambda>k. True) 0 1 (replicate 23 sample_block) initial_app)))
     = [0 ..< 23]"
  using batches_partition_document [of "\<lambda>k. Rejected" "\<lambda>k. True" 0 1 "replicate 23 sample_block" initial_app]
  by simp

text \<open>
  Claim C5, as stated, fails in one part: the count need not advance by exactly the size
  of the batch that completes. The update of line 128 reads \<open>currentProcessed\<close> when
  React runs it. With a backend that answers before React renders, the three updates of
  a document of 23 blocks are run after the loop, and each sets the count to 23: the
  count goes from 0 to 23, while the first batch has 10 blocks.
\<close>

theorem processed_count_skips_batches:
  "published (startTranslation (\<lambda>k. Rejected) (\<lambda>k. False) 0 1 (replicate 23 sample_block) initial_app)
     = [0, 23, 23, 23] \<and>
   length (snd (dispatched (startTranslation (\<lambda>k. Rejected) (\<lambda>k. False) 0 1
      (replicate 23 sample_block) initial_app) ! 0)) = 10 \<and>
   published (startTranslation (\<lambda>k. Rejected) (\<lambda>k. False) 0 1 (replicate 23 sample_block) initial_app)
       ! Suc 0
     \<noteq> published (startTranslation (\<lambda>k. Rejected) (\<lambda>k. False) 0 1 (replicate 23 sample_block)
         initial_app) ! 0
       + length (snd (dispatched (startTranslation (\<lambda>k. Rejected) (\<lambda>k. False) 0 1
           (replicate 23 sample_block) initial_app) ! 0))"
proof -
  let ?fin = "startTranslation (\<lambda>k. Rejected) (\<lambda>k. False) 0 1 (replicate 23 sample_block) initial_app"
  have m: "(length (replicate 23 sample_block) + 9) div 10 = Suc (Suc (Suc 0))" by simp
  have "published ?fin = 0 # replicate ((length (replicate 23 sample_block) + 9) div 10)
      (length (replicate 23 sample_block))"
    by (rule startTranslation_result(13)) simp
  then have p: "published ?fin = [0, 23, 23, 23]"
    unfolding m by simp
  have "dispatched ?fin = map (\<lambda>k. (k * BATCH_SIZE, batch_texts (replicate 23 sample_block) k))
      [0 ..< (length (replicate 23 sample_block) + 9) div 10]"
    by (rule startTranslation_result(3))
  then have d: "length (snd (dispatched ?fin ! 0)) = 10"
    unfolding m by (simp add: batch_texts_length BATCH_SIZE_def upt_conv_Cons)
  show ?thesis unfolding d p by simp
qed

text \<open>
  Claim C5, amended. The processed counts that the run gives to \<open>processedLines\<close> start
  at 0 and never decrease; there is one for the start and one for each call. Each of
  them is the size of a whole number of leading batches, at least of those done when
  its update was handed to React. When React renders during every call, so that each
  update is run before the next batch completes, the count after a call is the one
  before plus the size of that call's batch. The last one, and the processed count in
  the final stats, is the number of blocks, and no update is left pending. The run does
  not change the total count; when the run is started by \<open>handleFileChange\<close>, the
  total count was set to the number of parsed blocks, and after the run the processed
  count equals it.
\<close>

theorem processed_count_progress:
  "hd (published (startTranslation backend renders t_start t_end blocks a)) = 0 \<and>
   sorted (published (startTranslation backend renders t_start t_end blocks a)) \<and>
   length (published (startTranslation backend renders t_start t_end blocks a))
     = Suc (length (dispatched (startTranslation backend renders t_start t_end blocks a))) \<and>
   (\<forall>j < length (published (startTranslation backend renders t_start t_end blocks a)).
      \<exists>c. j \<le> c \<and> c \<le> length (dispatched (startTranslation backend renders t_start t_end blocks a)) \<and>
        published (startTranslation backend renders t_start t_end blocks a) ! j
          = batches_total (dispatched (startTranslation backend renders t_start t_end blocks a)) c) \<and>
   ((\<forall>k. renders k) \<longrightarrow>
      (\<forall>k < length (dispatched (startTranslation backend renders t_start t_end blocks a)).
         published (startTranslation backend renders t_start t_end blocks a) ! Suc k
           = published (startTranslation backend renders t_start t_end blocks a) ! k
             + length (snd (dispatched (startTranslation backend renders t_start t_end blocks a) ! k)))) \<and>
   last (published (startTranslation backend renders t_start t_end blocks a)) = length blocks \<and>
   processedLines (stats (startTranslation backend renders t_start t_end blocks a)) = length blocks \<and>
   pending (startTranslation backend renders t_start t_end blocks a) = 0 \<and>
   totalLines (stats (startTranslation backend renders t_start t_end blocks a)) = totalLines (stats a) \<and>
   (parseSRT content = Inr parsed \<longrightarrow>
      totalLines (stats (handleFileChange backend renders t_start t_end content a)) = length parsed \<and>
      processedLines (stats (handleFileChange backend renders t_start t_end content a)) = length parsed)"
proof (intro conjI)
  let ?fin = "startTranslation backend renders t_start t_end blocks a"
  let ?n = "length blocks" and ?m = "(length blocks + 9) div 10"
  have D: "dispatched ?fin = map (\<lambda>k. (k * BATCH_SIZE, batch_texts blocks k)) [0 ..< ?m]"
    by (rule startTranslation_result(3))
  have p: "progress_inv ?n ?m ?n ?fin" by (rule startTranslation_result(4))
  have len: "length (published ?fin) = Suc ?m" by (rule startTranslation_processed(3))
  from p show "hd (published ?fin) = 0" by (simp add: progress_inv_def)
  from p show "sorted (published ?fin)" by (simp add: progress_inv_def)
  show "length (published ?fin) = Suc (length (dispatched ?fin))"
    by (simp add: len D)
  show "\<forall>j < length (published ?fin).
      \<exists>c. j \<le> c \<and> c \<le> length (dispatched ?fin) \<and>
        published ?fin ! j = batches_total (dispatched ?fin) c"
  proof (intro allI impI)
    fix j assume "j < length (published ?fin)"
    with p obtain c where c: "j \<le> c" "c \<le> ?m" "published ?fin ! j = min (c * BATCH_SIZE) ?n"
      unfolding progress_inv_def by blast
    from c(2) have "batches_total (dispatched ?fin) c = min (c * BATCH_SIZE) ?n"
      unfolding D by (rule batches_total_closed)
    with c show "\<exists>c. j \<le> c \<and> c \<le> length (dispatched ?fin) \<and>
        published ?fin ! j = batches_total (dispatched ?fin) c"
      by (intro exI[of _ c]) (simp add: D)
  qed
  show "(\<forall>k. renders k) \<longrightarrow>
      (\<forall>k < length (dispatched ?fin).
         published ?fin ! Suc k = published ?fin ! k + length (snd (dispatched ?fin ! k)))"
  proof (intro allI impI)
    fix k assume all: "\<forall>k. renders k" and "k < length (dispatched ?fin)"
    then have k: "k < ?m" by (simp add: D)
    from all have P: "published ?fin = map (\<lambda>c. min (c * BATCH_SIZE) ?n) [0 ..< Suc ?m]"
      by (rule startTranslation_result(12))
    have nth: "published ?fin ! c = min (c * 10) ?n" if "c < Suc ?m" for c
      unfolding P using that by (simp add: BATCH_SIZE_def nth_append del: upt_Suc)
    from k have "length (snd (dispatched ?fin ! k)) = min 10 (?n - k * 10)"
      by (simp add: D batch_texts_length BATCH_SIZE_def)
    with k show "published ?fin ! Suc k = published ?fin ! k + length (snd (dispatched ?fin ! k))"
      by (simp add: nth published_step del: mult_Suc)
  qed
  show "last (published ?fin) = ?n" by (rule startTranslation_processed(1))
  show "processedLines (stats ?fin) = ?n" by (rule startTranslation_processed(2))
  show "pending ?fin = 0" by (rule startTranslation_result(11))
  show "totalLines (stats ?fin) = totalLines (stats a)" by (rule startTranslation_result(6))
  show "parseSRT content = Inr parsed \<longrightarrow>
      totalLines (stats (handleFileChange backend renders t_start t_end content a)) = length parsed \<and>
      processedLines (stats (handleFileChange backend renders t_start t_end content a)) = length parsed"
    by (simp add: handleFileChange_run startTranslation_processed(2) startTranslation_result(6))
qed

text \<open>
  A document of 23 blocks, with a React that renders during every call: the first call
  exists and the count after it is the count before it plus its size; the second
  published count is the size of some number of leading batches; the last count is 23.
  The sample file: two blocks parsed, and two processed at the end.
\<close>

theorem processed_count_progress_witness:
  "0 < length (dispatched (startTranslation (\<lambda>k. Rejected) (\<lambda>k. True) 0 1 (replicate 23 sample_block) initial_app)) \<and>
   published (startTranslation (\<lambda>k. Rejected) (\<lambda>k. True) 0 1 (replicate 23 sample_block) initial_app) ! Suc 0
     = published (startTranslation (\<lambda>k. Rejected) (\<lambda>k. True) 0 1 (replicate 23 sample_block) initial_app) ! 0
       + length (snd (dispatched (startTranslation (\<lambda>k. Rejected) (\<lambda>k. True) 0 1 (replicate 23 sample_block) initial_app) ! 0)) \<and>
   (\<exists>c. 1 \<le> c \<and>
      published (startTranslation (\<lambda>k. Rejected) (\<lambda>k. True) 0 1 (replicate 23 sample_block) initial_app) ! 1
        = batches_total (dispatched (startTranslation (\<lambda>k. Rejected) (\<lambda>k. True) 0 1
            (replicate 23 sample_block) initial_app)) c) \<and>
   last (published (startTranslation (\<lambda>k. Rejected) (\<lambda>k. True) 0 1 (replicate 23 sample_block) initial_app)) = 23 \<and>
   processedLines (stats (handleFileChange (\<lambda>k. Rejected) (\<lambda>k. True) 0 1 sample_srt initial_app)) = 2 \<and>
   totalLines (stats (handleFileChange (\<lambda>k. Rejected) (\<lambda>k. True) 0 1 sample_srt initial_app)) = 2"
proof -
  let ?fin = "startTranslation (\<lambda>k. Rejected) (\<lambda>k. True) 0 1 (replicate 23 sample_block) initial_app"
  have h: "0 < length (dispatched ?fin)"
    by (simp add: startTranslation_result(3))
  have all: "\<forall>k::nat. True" by simp
  note t = processed_count_progress
    [of "\<lambda>k. Rejected" "\<lambda>k. True" 0 1 "replicate 23 sample_block" initial_app sample_srt
      "[\<lparr>block_id = js ''1'', startTime = js ''00:00:01,000'', endTime = js ''00:00:02,000'',
            originalText = js ''konnichiwa'', translatedText = []\<rparr>,
          \<lparr>block_id = js ''2'', startTime = js ''00:00:03,000'', endTime = js ''00:00:04,500'',
            originalText = js ''  sayonara'', translatedText = []\<rparr>]"]
  from t h all
  have "published ?fin ! Suc 0 = published ?fin ! 0 + length (snd (dispatched ?fin ! 0))"
    by blast
  moreover from t h have "\<exists>c. 1 \<le> c \<and> published ?fin ! 1 = batches_total (dispatched ?fin) c"
    by (metis One_nat_def Suc_less_eq)
  moreover from t have "last (published ?fin) = 23" by simp
  moreover from t parseSRT_sample
  have "processedLines (stats (handleFileChange (\<lambda>k. Rejected) (\<lambda>k. True) 0 1 sample_srt initial_app)) = 2 \<and>
    totalLines (stats (handleFileChange (\<lambda>k. Rejected) (\<lambda>k. True) 0 1 sample_srt initial_app)) = 2"
    by simp
  ultimately show ?thesis using h by blast
qed

text \<open>
  Claim C3. Let the fetch of the \<open>k\<close>-th batch of a document fail. The run still
  ends in \<open>COMPLETED\<close>, with every block in place and one call dispatched for every
  batch. Every block of batch \<open>k\<close> has its original text as translated text. Every
  block of the document, so every block of every other batch, has as translated text
  what \<open>translateBatch\<close> returns for its own batch and the outcome of its own
  batch's fetch, and is otherwise unchanged.
\<close>

theorem backend_failure_identity_fallback:
  assumes "k * BATCH_SIZE < length blocks" and "generate_failed (backend k)"
  shows "state (startTranslation backend renders t_start t_end blocks a) = COMPLETED \<and>
    length (subtitleBlocks (startTranslation backend renders t_start t_end blocks a)) = length blocks \<and>
    length (dispatched (startTranslation backend renders t_start t_end blocks a)) = (length blocks + 9) div 10 \<and>
    (\<forall>j < length blocks. j div BATCH_SIZE = k \<longrightarrow>
       translatedText (subtitleBlocks (startTranslation backend renders t_start t_end blocks a) ! j)
         = originalText (blocks ! j)) \<and>
    (\<forall>j < length blocks.
       subtitleBlocks (startTranslation backend renders t_start t_end blocks a) ! j
         = (blocks ! j)\<lparr>translatedText :=
              translateBatch (batch_texts blocks (j div BATCH_SIZE)) (backend (j div BATCH_SIZE))
                ! (j mod BATCH_SIZE)\<rparr>)"
proof -
  let ?fin = "startTranslation backend renders t_start t_end blocks a"
  from assms(1) have ne: "blocks \<noteq> []" by auto
  have nth: "subtitleBlocks ?fin ! j = (blocks ! j)\<lparr>translatedText := expected_text backend blocks j\<rparr>"
    if "j < length blocks" for j
    using ne that by (rule startTranslation_result(10))
  have "state ?fin = COMPLETED" by (rule startTranslation_result(1))
  moreover have "length (subtitleBlocks ?fin) = length blocks"
    using ne by (simp add: startTranslation_result(9))
  moreover have "length (dispatched ?fin) = (length blocks + 9) div 10"
    by (simp add: startTranslation_result(3))
  moreover have "translatedText (subtitleBlocks ?fin ! j) = originalText (blocks ! j)"
    if "j < length blocks" "j div BATCH_SIZE = k" for j
    using that assms(2) batch_texts_nth[OF that(1)]
    by (simp add: nth expected_text_def translateBatch_failed)
  moreover have "subtitleBlocks ?fin ! j = (blocks ! j)\<lparr>translatedText :=
      translateBatch (batch_texts blocks (j div BATCH_SIZE)) (backend (j div BATCH_SIZE))
        ! (j mod BATCH_SIZE)\<rparr>" if "j < length blocks" for j
    using that by (simp add: nth expected_text_def)
  ultimately show ?thesis by blast
qed

text \<open>
  A document of 23 blocks whose second fetch is rejected: block 15 keeps its original
  text.
\<close>

theorem backend_failure_identity_fallback_witness:
  "1 * BATCH_SIZE < length (replicate 23 sample_block) \<and>
   generate_failed ((\<lambda>k. if k = 1 then Rejected else Replied 200 (Some (js ''x''))) 1) \<and>
   state (startTranslation (\<lambda>k. if k = 1 then Rejected else Replied 200 (Some (js ''x''))) (\<lambda>k. True) 0 1
            (replicate 23 sample_block) initial_app) = COMPLETED \<and>
   translatedText (subtitleBlocks
        (startTranslation (\<lambda>k. if k = 1 then Rejected else Replied 200 (Some (js ''x''))) (\<lambda>k. True) 0 1
            (replicate 23 sample_block) initial_app) ! 15) = js ''konnichiwa''"
proof -
  let ?backend = "\<lambda>k::nat. if k = 1 then Rejected else Replied 200 (Some (js ''x''))"
  have h1: "1 * BATCH_SIZE < length (replicate 23 sample_block)"
    by (simp add: BATCH_SIZE_def)
  have h2: "generate_failed (?backend 1)"
    by (simp add: generate_failed_def)
  have j: "(15::nat) < length (replicate 23 sample_block)" "15 div BATCH_SIZE = 1"
    by (simp_all add: BATCH_SIZE_def)
  from backend_failure_identity_fallback
    [where k = 1 and backend = ?backend and renders = "\<lambda>k. True" and blocks = "replicate 23 sample_block"
       and t_start = 0 and t_end = 1 and a = initial_app, OF h1 h2] j
  have "state (startTranslation ?backend (\<lambda>k. True) 0 1 (replicate 23 sample_block) initial_app) = COMPLETED"
    and "translatedText (subtitleBlocks
        (startTranslation ?backend (\<lambda>k. True) 0 1 (replicate 23 sample_block) initial_app) ! 15)
      = originalText (replicate 23 sample_block ! 15)"
    by blast+
  then show ?thesis using h1 h2 by (simp add: sample_block_def)
qed

section \<open>The codec: the round trip\<close>

text \<open>
  The delimiter holds no white space, and the joiner puts a line feed on either side of
  it. So in the joined payload an occurrence of the delimiter cannot reach across a
  joiner into a segment, and white space around a piece is removed by the trimming.
\<close>

lemma js_split_nonempty: "js_split d s \<noteq> []"
  by (cases s) (simp_all add: Let_def)

lemma split_no_occurrence: "d \<noteq> [] \<Longrightarrow> \<not> occurs_in d s \<Longrightarrow> js_split d s = [s]"
  by (induction s) (simp_all add: Let_def)

lemma not_prefix_append_Cons:
  assumes "\<not> prefix d a" "x \<notin> set d"
  shows "\<not> prefix d (a @ x # r)"
proof
  assume "prefix d (a @ x # r)"
  then have "prefix d a \<or> (\<exists>us. d = a @ us \<and> prefix us (x # r))"
    by (simp only: prefix_append)
  with assms(1) obtain us where us: "d = a @ us" "prefix us (x # r)" by blast
  from us(1) assms(1) have "us \<noteq> []" by auto
  with us(2) obtain us' where "us = x # us'" by (auto simp add: prefix_Cons)
  with us(1) have "x \<in> set d" by simp
  with assms(2) show False by blast
qed

lemma split_segment:
  assumes "d \<noteq> []" "x \<notin> set d" "\<not> occurs_in d a"
  shows "js_split d (a @ x # d @ rest) = (a @ [x]) # js_split d rest"
  using assms(3)
proof (induction a)
  case Nil
  obtain y ys where d: "d = y # ys" using assms(1) by (cases d) auto
  have "js_split d (d @ rest) = [] # js_split d rest"
    by (simp add: d)
  moreover have "\<not> prefix d (x # d @ rest)"
    using assms(2) by (auto simp add: d)
  ultimately show ?case by (simp add: Let_def)
next
  case (Cons c a)
  then have np: "\<not> prefix d (c # a)" and no: "\<not> occurs_in d a" by simp_all
  have "\<not> prefix d ((c # a) @ x # d @ rest)"
    using np assms(2) by (rule not_prefix_append_Cons)
  then have "\<not> prefix d (c # a @ x # d @ rest)" by simp
  with Cons.IH[OF no] show ?case by (simp add: Let_def)
qed

lemma trim_leading:
  assumes "\<forall>x \<in> set w. is_ws x"
  shows "js_trim (w @ s) = js_trim s"
  using assms by (simp add: js_trim_def dropWhile_append2)

lemma trim_trailing:
  assumes "\<forall>x \<in> set w. is_ws x"
  shows "js_trim (s @ w) = js_trim s"
proof (cases "\<forall>x \<in> set s. is_ws x")
  case True
  with assms have "dropWhile is_ws (s @ w) = []" by simp
  moreover from True have "dropWhile is_ws s = []" by simp
  ultimately show ?thesis by (simp only: js_trim_def)
next
  case False
  then obtain x where "x \<in> set s" "\<not> is_ws x" by blast
  then have "dropWhile is_ws (s @ w) = dropWhile is_ws s @ w"
    by (rule dropWhile_append1)
  moreover have "dropWhile is_ws (rev w @ rev (dropWhile is_ws s)) = dropWhile is_ws (rev (dropWhile is_ws s))"
    by (rule dropWhile_append2) (use assms in simp)
  ultimately show ?thesis by (simp add: js_trim_def)
qed


lemma no_occurrence_after:
  "d \<noteq> [] \<Longrightarrow> x \<notin> set d \<Longrightarrow> w = [] \<or> w = [x] \<Longrightarrow> \<not> occurs_in d s \<Longrightarrow>
   \<not> occurs_in d (w @ s)"
  by (cases d) auto

lemma js_join_Cons: "xs \<noteq> [] \<Longrightarrow> js_join sep (x # xs) = x @ sep @ js_join sep xs"
  by (cases xs) simp_all

lemma split_encode:
  assumes d: "d \<noteq> []" "\<forall>x \<in> set d. \<not> is_ws x" and nl: "is_ws nl"
    and S: "S \<noteq> []" "\<forall>s \<in> set S. js_trim s = s \<and> \<not> occurs_in d s"
    and w: "w = [] \<or> w = [nl]"
  shows "map js_trim (js_split d (w @ js_join (nl # d @ [nl]) S)) = S"
  using S w
proof (induction S arbitrary: w rule: list_nonempty_induct)
  case (single s)
  have nld: "nl \<notin> set d" using d(2) nl by blast
  from single have "\<not> occurs_in d s" by simp
  with d(1) nld single(2) have "\<not> occurs_in d (w @ s)" by (rule no_occurrence_after)
  then have "js_split d (w @ s) = [w @ s]" by (rule split_no_occurrence[OF d(1)])
  moreover have "js_trim (w @ s) = s"
    using single nl trim_leading[of w s] by auto
  ultimately show ?case by simp
next
  case (cons s ss)
  have nld: "nl \<notin> set d" using d(2) nl by blast
  from cons.prems have "\<not> occurs_in d s" by simp
  with d(1) nld cons.prems(2) have "\<not> occurs_in d (w @ s)" by (rule no_occurrence_after)
  then have "js_split d ((w @ s) @ nl # d @ ([nl] @ js_join (nl # d @ [nl]) ss))
      = ((w @ s) @ [nl]) # js_split d ([nl] @ js_join (nl # d @ [nl]) ss)"
    by (rule split_segment[OF d(1) nld])
  moreover have "js_trim ((w @ s) @ [nl]) = s"
  proof -
    have "js_trim ((w @ s) @ [nl]) = js_trim (w @ s)"
      by (rule trim_trailing) (simp add: nl)
    also have "\<dots> = js_trim s"
      by (rule trim_leading) (use cons.prems(2) nl in auto)
    finally show ?thesis using cons.prems(1) by simp
  qed
  moreover have "map js_trim (js_split d ([nl] @ js_join (nl # d @ [nl]) ss)) = ss"
    using cons.prems(1) by (intro cons.IH) simp_all
  moreover have "w @ js_join (nl # d @ [nl]) (s # ss)
      = (w @ s) @ nl # d @ ([nl] @ js_join (nl # d @ [nl]) ss)"
    using cons.hyps by (simp add: js_join_Cons)
  ultimately show ?case by (simp only: list.map)
qed


lemma split_leading_ws:
  assumes d: "d \<noteq> []" "\<forall>x \<in> set d. \<not> is_ws x" and w: "\<forall>x \<in> set w. is_ws x"
  shows "js_split d (w @ p) = (w @ hd (js_split d p)) # tl (js_split d p)"
  using w
proof (induction w)
  case Nil
  then show ?case by (simp add: js_split_nonempty)
next
  case (Cons x w)
  obtain y ys where y: "d = y # ys" using d(1) by (cases d) auto
  from Cons.prems d(2) have "x \<noteq> y" by (auto simp add: y)
  then have "\<not> prefix d (x # w @ p)" by (simp add: y)
  moreover from Cons have "js_split d (w @ p) = (w @ hd (js_split d p)) # tl (js_split d p)"
    by simp
  ultimately show ?case by (simp add: Let_def)
qed

lemma split_all_ws:
  assumes "d \<noteq> []" "\<forall>x \<in> set d. \<not> is_ws x" "\<forall>x \<in> set w. is_ws x"
  shows "js_split d w = [w]"
  using split_leading_ws[OF assms, of "[]"] by simp

lemma not_prefix_append_ws:
  assumes "\<not> prefix d a" "\<forall>x \<in> set d. \<not> is_ws x" "\<forall>x \<in> set w. is_ws x"
  shows "\<not> prefix d (a @ w)"
proof (cases w)
  case Nil
  with assms(1) show ?thesis by simp
next
  case (Cons x r)
  with assms(2,3) have "x \<notin> set d" by auto
  with assms(1) show ?thesis unfolding Cons by (rule not_prefix_append_Cons)
qed

lemma butlast_last_Cons_hd:
  "r \<noteq> [] \<Longrightarrow>
   butlast ((c # hd r) # tl r) @ [last ((c # hd r) # tl r) @ w]
     = (c # hd (butlast r @ [last r @ w])) # tl (butlast r @ [last r @ w])"
  by (cases r rule: rev_cases) (auto simp add: butlast_append hd_append)

lemma split_trailing_ws:
  "d \<noteq> [] \<Longrightarrow> \<forall>x \<in> set d. \<not> is_ws x \<Longrightarrow> \<forall>x \<in> set w. is_ws x \<Longrightarrow>
   js_split d (p @ w) = butlast (js_split d p) @ [last (js_split d p) @ w]"
proof (induction d p rule: js_split.induct)
  case (1 sep)
  then show ?case by (simp add: split_all_ws)
next
  case (2 sep c cs)
  show ?case
  proof (cases "prefix sep (c # cs)")
    case True
    then have p: "prefix sep ((c # cs) @ w)" by (rule prefix_prefix)
    from True have len: "length sep \<le> length (c # cs)" by (rule prefix_length_le)
    have "js_split sep (drop (length sep) (c # cs) @ w)
        = butlast (js_split sep (drop (length sep) (c # cs)))
          @ [last (js_split sep (drop (length sep) (c # cs))) @ w]"
      using True "2.prems" by (intro "2.IH"(1)) simp_all
    moreover have "drop (length sep) ((c # cs) @ w) = drop (length sep) (c # cs) @ w"
    proof -
      have z: "length sep - length (c # cs) = 0" using len by simp
      show ?thesis by (simp only: drop_append z drop_0)
    qed
    moreover have "js_split sep ((c # cs) @ w) = [] # js_split sep (drop (length sep) ((c # cs) @ w))"
      using p "2.prems"(1) by simp
    moreover have "js_split sep (c # cs) = [] # js_split sep (drop (length sep) (c # cs))"
      using True "2.prems"(1) by simp
    ultimately show ?thesis by (simp add: js_split_nonempty)
  next
    case False
    then have np: "\<not> prefix sep ((c # cs) @ w)"
      using "2.prems"(2,3) by (rule not_prefix_append_ws)
    have ih: "js_split sep (cs @ w) = butlast (js_split sep cs) @ [last (js_split sep cs) @ w]"
      using False "2.prems" by (intro "2.IH"(2)) simp_all
    have "js_split sep ((c # cs) @ w) = (c # hd (js_split sep (cs @ w))) # tl (js_split sep (cs @ w))"
      using np by (simp add: Let_def)
    also have "\<dots> = butlast ((c # hd (js_split sep cs)) # tl (js_split sep cs))
        @ [last ((c # hd (js_split sep cs)) # tl (js_split sep cs)) @ w]"
      unfolding ih by (rule butlast_last_Cons_hd[symmetric]) (rule js_split_nonempty)
    also have "(c # hd (js_split sep cs)) # tl (js_split sep cs) = js_split sep (c # cs)"
      using False by (simp add: Let_def)
    finally show ?thesis .
  qed
qed


lemma trim_decompose:
  "\<exists>w1 w2. p = w1 @ js_trim p @ w2 \<and> (\<forall>x \<in> set w1. is_ws x) \<and> (\<forall>x \<in> set w2. is_ws x)"
proof (intro exI conjI)
  let ?q = "dropWhile is_ws p"
  have "rev (dropWhile is_ws (rev ?q)) @ rev (takeWhile is_ws (rev ?q))
      = rev (takeWhile is_ws (rev ?q) @ dropWhile is_ws (rev ?q))"
    by (simp only: rev_append)
  also have "\<dots> = rev (rev ?q)" by (simp only: takeWhile_dropWhile_id)
  also have "\<dots> = ?q" by (rule rev_rev_ident)
  finally have "?q = js_trim p @ rev (takeWhile is_ws (rev ?q))"
    by (simp only: js_trim_def)
  moreover have "p = takeWhile is_ws p @ ?q" by simp
  ultimately show "p = takeWhile is_ws p @ js_trim p @ rev (takeWhile is_ws (rev ?q))"
    by simp
  show "\<forall>x \<in> set (takeWhile is_ws p). is_ws x" by (auto dest: set_takeWhileD)
  show "\<forall>x \<in> set (rev (takeWhile is_ws (rev ?q))). is_ws x" by (auto dest: set_takeWhileD)
qed

lemma map_trim_split_ws:
  assumes d: "d \<noteq> []" "\<forall>x \<in> set d. \<not> is_ws x"
    and w: "\<forall>x \<in> set w1. is_ws x" "\<forall>x \<in> set w2. is_ws x"
  shows "map js_trim (js_split d (w1 @ p @ w2)) = map js_trim (js_split d p)"
proof -
  let ?r = "js_split d p" and ?r2 = "js_split d (p @ w2)"
  have r: "?r \<noteq> []" and r2: "?r2 \<noteq> []" by (rule js_split_nonempty)+
  have "js_split d (w1 @ p @ w2) = (w1 @ hd ?r2) # tl ?r2"
    using d w(1) by (rule split_leading_ws)
  then have "map js_trim (js_split d (w1 @ p @ w2)) = js_trim (w1 @ hd ?r2) # map js_trim (tl ?r2)"
    by simp
  also have "js_trim (w1 @ hd ?r2) = js_trim (hd ?r2)"
    using w(1) by (rule trim_leading)
  also have "js_trim (hd ?r2) # map js_trim (tl ?r2) = map js_trim ?r2"
    using r2 by (cases ?r2) simp_all
  also have "?r2 = butlast ?r @ [last ?r @ w2]"
    using d w(2) by (rule split_trailing_ws)
  also have "map js_trim (butlast ?r @ [last ?r @ w2]) = map js_trim (butlast ?r) @ [js_trim (last ?r @ w2)]"
    by simp
  also have "js_trim (last ?r @ w2) = js_trim (last ?r)"
    using w(2) by (rule trim_trailing)
  also have "map js_trim (butlast ?r) @ [js_trim (last ?r)] = map js_trim (butlast ?r @ [last ?r])"
    by simp
  also have "butlast ?r @ [last ?r] = ?r"
    using r by simp
  finally show ?thesis .
qed

lemma map_trim_split_trim:
  assumes "d \<noteq> []" "\<forall>x \<in> set d. \<not> is_ws x"
  shows "map js_trim (js_split d (js_trim p)) = map js_trim (js_split d p)"
proof -
  obtain w1 w2 where p: "p = w1 @ js_trim p @ w2"
    and w: "\<forall>x \<in> set w1. is_ws x" "\<forall>x \<in> set w2. is_ws x"
    using trim_decompose by blast
  have "map js_trim (js_split d (w1 @ js_trim p @ w2)) = map js_trim (js_split d (js_trim p))"
    using assms w by (rule map_trim_split_ws)
  with p show ?thesis by simp
qed

lemma SPLIT_facts: "SPLIT \<noteq> []" "\<forall>x \<in> set SPLIT. \<not> is_ws x" "is_ws 0xA"
  "js ''\<newline>---SPLIT---\<newline>'' = 0xA # SPLIT @ [0xA]"
  by (simp_all add: SPLIT_def js_def is_ws_def)

lemma split_encode_SPLIT:
  assumes "S \<noteq> []" "\<forall>s \<in> set S. js_trim s = s \<and> \<not> occurs_in SPLIT s"
  shows "map js_trim (js_split SPLIT (encode S)) = S"
  using split_encode[OF SPLIT_facts(1,2,3) assms, of "[]"]
  by (simp add: encode_def SPLIT_facts(4))

text \<open>
  Claim C2, as stated, fails. A segment that begins with a space comes back without it,
  because every piece is trimmed. A segment that contains the delimiter, before an empty
  segment, makes three pieces of two segments, and the newline split, which has two
  lines, is returned in place of the segments.
\<close>

theorem roundtrip_counterexample:
  "decode [js '' a''] (encode [js '' a'']) \<noteq> [js '' a''] \<and>
   decode [js ''a---SPLIT---b'', js []] (encode [js ''a---SPLIT---b'', js []])
     \<noteq> [js ''a---SPLIT---b'', js []]"
  by (simp add: decode_def decode_traced_def encode_def str_defs)

lemma roundtrip_counterexample_values:
  "decode [js '' a''] (encode [js '' a'']) = [js ''a'']"
  "decode [js ''a---SPLIT---b'', js []] (encode [js ''a---SPLIT---b'', js []])
     = [js ''a---SPLIT---b'', js ''---SPLIT---'']"
  by (simp_all add: decode_def decode_traced_def encode_def str_defs)

text \<open>
  Claim C2, amended. For every non-empty sequence of segments that have no white space
  at either end and do not contain the delimiter, splitting the joined payload on the
  delimiter and trimming each piece gives the segments back, in order; so \<open>decode\<close>
  of the encoding returns the segments, and so does \<open>translateBatch\<close> when the
  backend answers with the payload itself.
\<close>

theorem roundtrip_trimmed_segments:
  assumes "S \<noteq> []" and "\<forall>s \<in> set S. js_trim s = s \<and> \<not> occurs_in SPLIT s"
  shows "map js_trim (js_split SPLIT (encode S)) = S \<and>
    decode S (encode S) = S \<and>
    translateBatch S (Replied 200 (Some (encode S))) = S"
proof -
  have a: "map js_trim (js_split SPLIT (encode S)) = S"
    using assms by (rule split_encode_SPLIT)
  have b: "map js_trim (js_split SPLIT (js_trim (encode S))) = S"
    using a map_trim_split_trim[OF SPLIT_facts(1,2), of "encode S"] by simp
  have "decode S (encode S) = S"
    using a by (simp add: decode_def decode_traced_def Let_def)
  moreover have "translateBatch S (Replied 200 (Some (encode S))) = S"
    using b by (simp add: translateBatch_def response_ok_def decode_def decode_traced_def Let_def)
  ultimately show ?thesis using a by blast
qed

text \<open>
  Three segments, one of two lines and one empty.
\<close>

theorem roundtrip_trimmed_segments_witness:
  "[js ''konnichiwa'', js ''line one\<newline>line two'', js []] \<noteq> [] \<and>
   js_trim (js ''line one\<newline>line two'') = js ''line one\<newline>line two'' \<and>
   \<not> occurs_in SPLIT (js ''line one\<newline>line two'') \<and>
   encode [js ''konnichiwa'', js ''line one\<newline>line two'', js []]
     = js ''konnichiwa\<newline>---SPLIT---\<newline>line one\<newline>line two\<newline>---SPLIT---\<newline>'' \<and>
   decode [js ''konnichiwa'', js ''line one\<newline>line two'', js []]
     (encode [js ''konnichiwa'', js ''line one\<newline>line two'', js []])
     = [js ''konnichiwa'', js ''line one\<newline>line two'', js []]"
proof -
  let ?S = "[js ''konnichiwa'', js ''line one\<newline>line two'', js []]"
  have h1: "?S \<noteq> []" by simp
  have h2: "\<forall>s \<in> set ?S. js_trim s = s \<and> \<not> occurs_in SPLIT s"
    by (simp add: str_defs)
  have e: "encode ?S = js ''konnichiwa\<newline>---SPLIT---\<newline>line one\<newline>line two\<newline>---SPLIT---\<newline>''"
    by (simp add: encode_def js_def)
  from roundtrip_trimmed_segments[OF h1 h2] have "decode ?S (encode ?S) = ?S" by blast
  with h1 h2 e show ?thesis by simp
qed

end
